theory Spec2Isabelle
  imports Complex_Main "HOL-Library.Sublist"
begin

section \<open>Errors\<close>

text \<open>
  The script has no exception classes of its own: a missing month column ends the run
  through \<open>st.error\<close> followed by \<open>st.stop\<close>, everything else is an exception
  raised by pandas, pmdarima or Python and never caught. Each way the run can end early is
  a constructor, named as the specification names it where it has a name.
\<close>

datatype error =
    MissingColumnError
  | DateParseError
  | NumericParseError
  | KeyError
  | ModelFitError
  | IndexError
  | ValueError
  | LengthMismatchError

section \<open>Values of the revenue column\<close>

text \<open>
  A cell of the revenue column after \<open>astype(float)\<close> is a double: a finite one, kept
  as the real number it stands for, one of the two infinities, or NaN, which is what
  pandas treats as missing.
\<close>

datatype pyfloat = Fin real | PInf | NInf | NaN

fun isna :: "pyfloat \<Rightarrow> bool" where
  "isna NaN = True"
| "isna _ = False"

section \<open>Timestamps and the month-end offset\<close>

text \<open>
  An entry of the index is a pandas \<open>Timestamp\<close>: a calendar date and a time of day
  (\<open>tod\<close>, in nanoseconds since midnight). The bounds of the 64-bit nanosecond
  representation (years 1677 to 2262) are not modelled. \<open>NaT\<close> is \<open>None\<close>.
\<close>

record timestamp =
  year :: int
  month :: int
  day :: int
  tod :: nat

definition is_leapyear :: "int \<Rightarrow> bool" where
  "is_leapyear y = ((y mod 4 = 0 \<and> y mod 100 \<noteq> 0) \<or> y mod 400 = 0)"

definition days_in_month :: "int \<Rightarrow> int \<Rightarrow> int" where
  "days_in_month y m =
     (if m = 2 then (if is_leapyear y then 29 else 28)
      else if m = 4 \<or> m = 6 \<or> m = 9 \<or> m = 11 then 30
      else 31)"

text \<open>
  \<open>roll_convention\<close> and \<open>shift_month\<close> (with \<open>day_opt = "end"\<close>) are the two
  helpers pandas' \<open>MonthEnd\<close> offset is made of; \<open>MonthEnd n\<close> is what
  \<open>ts + pd.offsets.MonthEnd(n)\<close> computes. The time of day is kept.
\<close>

definition roll_convention :: "int \<Rightarrow> int \<Rightarrow> int \<Rightarrow> int" where
  "roll_convention other n compare =
     (if n > 0 \<and> other < compare then n - 1
      else if n \<le> 0 \<and> other > compare then n + 1
      else n)"

definition shift_month :: "timestamp \<Rightarrow> int \<Rightarrow> timestamp" where
  "shift_month stamp months =
     (let dy = (month stamp + months) div 12;
          m = (month stamp + months) mod 12;
          m' = (if m = 0 then 12 else m);
          dy' = (if m = 0 then dy - 1 else dy);
          y = year stamp + dy'
      in stamp\<lparr>year := y, month := m', day := days_in_month y m'\<rparr>)"

definition MonthEnd :: "int \<Rightarrow> timestamp \<Rightarrow> timestamp" where
  "MonthEnd n other =
     shift_month other
       (roll_convention (day other) n (days_in_month (year other) (month other)))"

definition is_on_offset :: "timestamp \<Rightarrow> bool" where
  "is_on_offset ts = (day ts = days_in_month (year ts) (month ts))"

definition rollforward :: "timestamp \<Rightarrow> timestamp" where
  "rollforward ts = (if is_on_offset ts then ts else MonthEnd 1 ts)"

text \<open>Adding an offset to an index entry: \<open>NaT\<close> stays \<open>NaT\<close>.\<close>

definition add_offset :: "int \<Rightarrow> timestamp option \<Rightarrow> timestamp option" where
  "add_offset n k = map_option (MonthEnd n) k"

section \<open>The series regularizer (lines 47 to 49)\<close>

text \<open>
  After \<open>set_index\<close> the frame is a list of rows in file order, each an index entry
  and its value in the revenue column; the other columns play no part downstream.
\<close>

type_synonym series = "(timestamp option \<times> pyfloat) list"

text \<open>Line 47: \<open>data.index = data.index + pd.offsets.MonthEnd(-1)\<close>.\<close>

definition align_month_end :: "series \<Rightarrow> series" where
  "align_month_end s = map (\<lambda>(k, v). (add_offset (- 1) k, v)) s"

text \<open>
  Line 48: \<open>data = data[~data.index.duplicated(keep="first")]\<close>. \<open>duplicated\<close>
  marks an entry that occurred earlier; the negated mask selects the rows to keep.
\<close>

fun duplicated_from :: "'a list \<Rightarrow> 'a list \<Rightarrow> bool list" where
  "duplicated_from seen [] = []"
| "duplicated_from seen (k # ks) = (k \<in> set seen) # duplicated_from (k # seen) ks"

definition duplicated :: "'a list \<Rightarrow> bool list" where
  "duplicated ks = duplicated_from [] ks"

definition select_rows :: "bool list \<Rightarrow> 'a list \<Rightarrow> 'a list" where
  "select_rows keep rows = map snd (filter fst (zip keep rows))"

definition drop_duplicates :: "series \<Rightarrow> series" where
  "drop_duplicates s = select_rows (map Not (duplicated (map fst s))) s"

text \<open>
  Line 49: \<open>data[" Revenue "] = data[" Revenue "].fillna(method="ffill")\<close>: a
  missing value takes the last value seen that is not missing, if there is one.
\<close>

fun ffill_from :: "pyfloat \<Rightarrow> pyfloat list \<Rightarrow> pyfloat list" where
  "ffill_from prev [] = []"
| "ffill_from prev (v # vs) =
     (if isna v then prev # ffill_from prev vs else v # ffill_from v vs)"

definition ffill :: "pyfloat list \<Rightarrow> pyfloat list" where
  "ffill vs = ffill_from NaN vs"

definition fill_revenue :: "series \<Rightarrow> series" where
  "fill_revenue s = zip (map fst s) (ffill (map snd s))"

definition regularize :: "series \<Rightarrow> series" where
  "regularize s = fill_revenue (drop_duplicates (align_month_end s))"

section \<open>Column names: Python's \<open>strip\<close> and \<open>lower\<close>\<close>

text \<open>
  A text is a Python \<open>str\<close> whose code points are below 256, a character being its
  code point. \<open>py_isspace\<close> lists the code points below 256 that Python's
  \<open>str.isspace\<close> accepts: tab to carriage return, the four separators 28 to 31, the
  space, the next-line control 133 and the no-break space 160. \<open>lower\<close> is
  \<open>str.lower\<close> on these code points: it moves \<open>A\<close> to \<open>Z\<close> and the capital
  letters 192 to 222 (but the multiplication sign 215) to their lower case, 32 code
  points on, and leaves the rest.
\<close>

definition py_isspace :: "char \<Rightarrow> bool" where
  "py_isspace c =
     (let n = (of_char c :: nat)
      in (9 \<le> n \<and> n \<le> 13) \<or> (28 \<le> n \<and> n \<le> 32) \<or> n = 133 \<or> n = 160)"

definition strip :: "string \<Rightarrow> string" where
  "strip s = rev (dropWhile py_isspace (rev (dropWhile py_isspace s)))"

definition upper_letters :: "char list" where
  "upper_letters =
     ''ABCDEFGHIJKLMNOPQRSTUVWXYZ'' @
     [CHR 0xC0, CHR 0xC1, CHR 0xC2, CHR 0xC3, CHR 0xC4, CHR 0xC5, CHR 0xC6, CHR 0xC7,
      CHR 0xC8, CHR 0xC9, CHR 0xCA, CHR 0xCB, CHR 0xCC, CHR 0xCD, CHR 0xCE, CHR 0xCF,
      CHR 0xD0, CHR 0xD1, CHR 0xD2, CHR 0xD3, CHR 0xD4, CHR 0xD5, CHR 0xD6,
      CHR 0xD8, CHR 0xD9, CHR 0xDA, CHR 0xDB, CHR 0xDC, CHR 0xDD, CHR 0xDE]"

definition lower_letters :: "char list" where
  "lower_letters =
     ''abcdefghijklmnopqrstuvwxyz'' @
     [CHR 0xE0, CHR 0xE1, CHR 0xE2, CHR 0xE3, CHR 0xE4, CHR 0xE5, CHR 0xE6, CHR 0xE7,
      CHR 0xE8, CHR 0xE9, CHR 0xEA, CHR 0xEB, CHR 0xEC, CHR 0xED, CHR 0xEE, CHR 0xEF,
      CHR 0xF0, CHR 0xF1, CHR 0xF2, CHR 0xF3, CHR 0xF4, CHR 0xF5, CHR 0xF6,
      CHR 0xF8, CHR 0xF9, CHR 0xFA, CHR 0xFB, CHR 0xFC, CHR 0xFD, CHR 0xFE]"

definition lower_char :: "char \<Rightarrow> char" where
  "lower_char c =
     (case map_of (zip upper_letters lower_letters) c of
        Some l \<Rightarrow> l
      | None \<Rightarrow> c)"

definition lower :: "string \<Rightarrow> string" where
  "lower s = map lower_char s"

section \<open>The column normalizer (lines 28 to 35)\<close>

text \<open>
  The table \<open>read_csv\<close> returns: the column names in file order and the rows, each a
  list of cells. A cell of a text column is its text, or missing.
\<close>

datatype cell = Text string | Missing

record rawtable =
  columns :: "string list"
  rows :: "cell list list"

definition month_like :: "string \<Rightarrow> bool" where
  "month_like col = (lower (strip col) = ''month'')"

text \<open>
  The \<open>for\<close> loop with its \<open>break\<close>: the first column the test accepts, or
  \<open>None\<close> when the loop runs to its \<open>else\<close> branch.
\<close>

fun first_month_like :: "string list \<Rightarrow> string option" where
  "first_month_like [] = None"
| "first_month_like (col # cols) =
     (if month_like col then Some col else first_month_like cols)"

text \<open>\<open>data.rename(columns={col: "Month"})\<close> renames every column called \<open>col\<close>.\<close>

definition rename :: "string \<Rightarrow> string \<Rightarrow> rawtable \<Rightarrow> rawtable" where
  "rename col new t = t\<lparr>columns := map (\<lambda>c. if c = col then new else c) (columns t)\<rparr>"

definition column_normalizer :: "rawtable \<Rightarrow> error + rawtable" where
  "column_normalizer t =
     (if ''Month'' \<in> set (columns t) then Inr t
      else (case first_month_like (columns t) of
              Some col \<Rightarrow> Inr (rename col ''Month'' t)
            | None \<Rightarrow> Inl MissingColumnError))"

section \<open>The revenue column cleaner (lines 42 to 44)\<close>

text \<open>
  \<open>replace({"\$": "", ",": ""}, regex=True)\<close> deletes every match of each of the two
  one-character patterns from a text cell and leaves a missing cell alone.
\<close>

definition remove_literal :: "char \<Rightarrow> string \<Rightarrow> string" where
  "remove_literal c s = filter (\<lambda>x. x \<noteq> c) s"

definition replace_currency :: "string \<Rightarrow> string" where
  "replace_currency s = remove_literal (CHR '','') (remove_literal (CHR ''$'') s)"

text \<open>
  Modelled from the spec: \<open>astype(float)\<close> is pandas handing each text to Python's
  \<open>float\<close>, which is not code of the repository. The specification says that the text
  is parsed as a floating-point number and that residual non-numeric text is a
  \<open>NumericParseError\<close>. The reader below works as Python's does: surrounding white
  space is dropped, underscores may stand only between two digits and are deleted, then
  come an optional sign and either \<open>inf\<close>, \<open>infinity\<close>, \<open>nan\<close> (in any case) or
  digits with an optional point and an optional exponent. The real number a finite
  literal denotes is then rounded to a double: the rounding function \<open>rd\<close> (to the
  nearest double, or to an infinity beyond the range of doubles) is a parameter.
\<close>

definition is_digit :: "char \<Rightarrow> bool" where
  "is_digit c = (let n = (of_char c :: nat) in 48 \<le> n \<and> n \<le> 57)"

definition digits_val :: "string \<Rightarrow> nat" where
  "digits_val s = foldl (\<lambda>a c. 10 * a + (of_char c - 48)) 0 s"

definition digitpart :: "string \<Rightarrow> bool" where
  "digitpart s = (s \<noteq> [] \<and> list_all is_digit s)"

fun underscores_ok :: "char \<Rightarrow> string \<Rightarrow> bool" where
  "underscores_ok prev [] = (prev \<noteq> CHR ''_'')"
| "underscores_ok prev (c # cs) =
     (if c = CHR ''_'' then is_digit prev \<and> underscores_ok c cs
      else (prev = CHR ''_'' \<longrightarrow> is_digit c) \<and> underscores_ok c cs)"

definition split_sign :: "string \<Rightarrow> bool \<times> string" where
  "split_sign s =
     (case s of
        c # cs \<Rightarrow> (if c = CHR ''-'' then (True, cs) else if c = CHR ''+'' then (False, cs) else (False, s))
      | [] \<Rightarrow> (False, s))"

definition exponent_val :: "string \<Rightarrow> int option" where
  "exponent_val s =
     (let (neg, ds) = split_sign s
      in if digitpart ds then Some (if neg then - int (digits_val ds) else int (digits_val ds))
         else None)"

definition scale10 :: "real \<Rightarrow> int \<Rightarrow> real" where
  "scale10 x e = (if e \<ge> 0 then x * 10 ^ nat e else x / 10 ^ nat (- e))"

definition mantissa_ok :: "string \<Rightarrow> bool" where
  "mantissa_ok mant =
     (let ip = takeWhile (\<lambda>c. c \<noteq> CHR ''.'') mant;
          fp = drop 1 (dropWhile (\<lambda>c. c \<noteq> CHR ''.'') mant)
      in if CHR ''.'' \<in> set mant
         then (ip = [] \<or> digitpart ip) \<and> (fp = [] \<or> digitpart fp) \<and> \<not> (ip = [] \<and> fp = [])
         else digitpart mant)"

definition mantissa_val :: "string \<Rightarrow> real" where
  "mantissa_val mant =
     (let ip = takeWhile (\<lambda>c. c \<noteq> CHR ''.'') mant;
          fp = drop 1 (dropWhile (\<lambda>c. c \<noteq> CHR ''.'') mant)
      in real (digits_val (ip @ fp)) / 10 ^ length fp)"

definition floatnumber :: "string \<Rightarrow> real option" where
  "floatnumber s =
     (let mant = takeWhile (\<lambda>c. c \<noteq> CHR ''e'' \<and> c \<noteq> CHR ''E'') s;
          rest = dropWhile (\<lambda>c. c \<noteq> CHR ''e'' \<and> c \<noteq> CHR ''E'') s
      in if \<not> mantissa_ok mant then None
         else if rest = [] then Some (mantissa_val mant)
         else map_option (scale10 (mantissa_val mant)) (exponent_val (drop 1 rest)))"

definition absfloatvalue :: "(real \<Rightarrow> pyfloat) \<Rightarrow> string \<Rightarrow> pyfloat option" where
  "absfloatvalue rd s =
     (if lower s = ''inf'' \<or> lower s = ''infinity'' then Some PInf
      else if lower s = ''nan'' then Some NaN
      else map_option rd (floatnumber s))"

fun negate :: "pyfloat \<Rightarrow> pyfloat" where
  "negate (Fin x) = Fin (- x)"
| "negate PInf = NInf"
| "negate NInf = PInf"
| "negate NaN = NaN"

definition float_isspace :: "char \<Rightarrow> bool" where
  "float_isspace c =
     (let n = (of_char c :: nat) in (9 \<le> n \<and> n \<le> 13) \<or> n = 32 \<or> n = 133 \<or> n = 160)"

definition float_strip :: "string \<Rightarrow> string" where
  "float_strip s = rev (dropWhile float_isspace (rev (dropWhile float_isspace s)))"

definition py_float :: "(real \<Rightarrow> pyfloat) \<Rightarrow> string \<Rightarrow> error + pyfloat" where
  "py_float rd text =
     (let s = float_strip text
      in if \<not> underscores_ok (CHR 0x00) s then Inl NumericParseError
         else (let (neg, body) = split_sign (remove_literal (CHR ''_'') s)
               in case absfloatvalue rd body of
                    None \<Rightarrow> Inl NumericParseError
                  | Some v \<Rightarrow> Inr (if neg then negate v else v)))"

definition clean_cell :: "(real \<Rightarrow> pyfloat) \<Rightarrow> cell \<Rightarrow> error + pyfloat" where
  "clean_cell rd c =
     (case c of Text s \<Rightarrow> py_float rd (replace_currency s) | Missing \<Rightarrow> Inr NaN)"

fun clean_revenue :: "(real \<Rightarrow> pyfloat) \<Rightarrow> cell list \<Rightarrow> error + pyfloat list" where
  "clean_revenue rd [] = Inr []"
| "clean_revenue rd (c # cs) =
     (case clean_cell rd c of
        Inl e \<Rightarrow> Inl e
      | Inr v \<Rightarrow> (case clean_revenue rd cs of Inl e \<Rightarrow> Inl e | Inr vs \<Rightarrow> Inr (v # vs)))"

section \<open>The forecast index and the forecast series (lines 67 to 71)\<close>

definition n_periods :: nat where
  "n_periods = 60"

text \<open>
  \<open>pd.date_range(start, periods, freq="M")\<close>: the start is rolled forward to a month
  end unless it is one, then each date is the one before plus one \<open>MonthEnd\<close>.
\<close>

fun month_ends :: "timestamp \<Rightarrow> nat \<Rightarrow> timestamp list" where
  "month_ends cur 0 = []"
| "month_ends cur (Suc n) = cur # month_ends (MonthEnd 1 cur) n"

definition date_range :: "timestamp \<Rightarrow> nat \<Rightarrow> timestamp list" where
  "date_range start periods = month_ends (rollforward start) periods"

text \<open>
  \<open>data.index[-1]\<close> raises \<open>IndexError\<close> on an empty index, and \<open>date_range\<close>
  raises \<open>ValueError\<close> when the start is \<open>NaT\<close>. The slice \<open>[1:]\<close> drops the first
  date.
\<close>

definition forecast_index :: "series \<Rightarrow> error + timestamp list" where
  "forecast_index data =
     (if data = [] then Inl IndexError
      else (case fst (last data) of
              None \<Rightarrow> Inl ValueError
            | Some start \<Rightarrow> Inr (drop 1 (date_range start (n_periods + 1)))))"

text \<open>
  What \<open>predict\<close> returns depends on the version of the library: an array of values,
  or a pandas \<open>Series\<close>, values under labels, the labels being dates or positions.
\<close>

datatype label = Stamp timestamp | Position int

datatype prediction = Values "pyfloat list" | Labelled "(label \<times> pyfloat) list"

text \<open>
  \<open>pd.Series(forecast, index=forecast_index)\<close>. An array is paired with the index by
  position, and the call raises when the two lengths differ. A \<open>Series\<close> is reindexed:
  when its labels are the index it is taken as it is; otherwise each date of the index
  takes the value under that label, or NaN when there is none, and the call raises only
  when the labels of the \<open>Series\<close> are not unique.
\<close>

type_synonym forecast_series = "(timestamp \<times> pyfloat) list"

definition reindex :: "(label \<times> pyfloat) list \<Rightarrow> timestamp list \<Rightarrow> forecast_series" where
  "reindex ps idx =
     map (\<lambda>d. (d, case map_of ps (Stamp d) of Some v \<Rightarrow> v | None \<Rightarrow> NaN)) idx"

definition make_series :: "prediction \<Rightarrow> timestamp list \<Rightarrow> error + forecast_series" where
  "make_series forecast idx =
     (case forecast of
        Values vals \<Rightarrow>
          if length vals \<noteq> length idx then Inl LengthMismatchError else Inr (zip idx vals)
      | Labelled ps \<Rightarrow>
          if map fst ps = map Stamp idx then Inr (zip idx (map snd ps))
          else if \<not> distinct (map fst ps) then Inl ValueError
          else Inr (reindex ps idx))"

section \<open>The script and its session\<close>

text \<open>
  What the script calls and the repository does not contain is a parameter: the date
  parser applied to the month column, the rounding of a real number to a double, the
  model search, and the fitted model's \<open>predict\<close>.
\<close>

record 'm externals =
  to_datetime :: "cell list \<Rightarrow> error + timestamp option list"
  nearest_double :: "real \<Rightarrow> pyfloat"
  auto_arima :: "series \<Rightarrow> error + 'm"
  predict :: "'m \<Rightarrow> nat \<Rightarrow> error + prediction"

text \<open>
  \<open>st.session_state\<close> survives from one run of the script to the next. Its other entry,
  \<open>selected_end_year\<close>, is read and written only by the page code below line 73,
  which is not modelled.
\<close>

record 'm session =
  model :: "'m option"

definition column_index :: "string \<Rightarrow> string list \<Rightarrow> nat option" where
  "column_index name cols =
     (if name \<in> set cols then Some (length (takeWhile (\<lambda>c. c \<noteq> name) cols)) else None)"

definition column_cells :: "nat \<Rightarrow> cell list list \<Rightarrow> cell list" where
  "column_cells j rs = map (\<lambda>r. if j < length r then r ! j else Missing) rs"

text \<open>Lines 25 to 49: from the table to the regularized series.\<close>

definition load_series :: "'m externals \<Rightarrow> rawtable \<Rightarrow> error + series" where
  "load_series ext t =
     (case column_normalizer t of
        Inl e \<Rightarrow> Inl e
      | Inr t' \<Rightarrow>
          (case column_index ''Month'' (columns t') of
             None \<Rightarrow> Inl KeyError
           | Some i \<Rightarrow>
               (case to_datetime ext (column_cells i (rows t')) of
                  Inl e \<Rightarrow> Inl e
                | Inr idx \<Rightarrow>
                    (case column_index '' Revenue '' (columns t') of
                       None \<Rightarrow> Inl KeyError
                     | Some j \<Rightarrow>
                         (case clean_revenue (nearest_double ext) (column_cells j (rows t')) of
                            Inl e \<Rightarrow> Inl e
                          | Inr vals \<Rightarrow> Inr (regularize (zip idx vals)))))))"

text \<open>Lines 66 to 71: the forecast of the stored model, dated.\<close>

definition assemble_forecast ::
  "'m externals \<Rightarrow> 'm \<Rightarrow> series \<Rightarrow> error + forecast_series" where
  "assemble_forecast ext m data =
     (case predict ext m n_periods of
        Inl e \<Rightarrow> Inl e
      | Inr forecast \<Rightarrow>
          (case forecast_index data of
             Inl e \<Rightarrow> Inl e
           | Inr idx \<Rightarrow> make_series forecast idx))"

text \<open>
  One run of the script. Beside the session it leaves and its result, the outcome counts
  the calls of \<open>auto_arima\<close> the run made.
\<close>

record 'm outcome =
  session_after :: "'m session"
  fit_calls :: nat
  result :: "error + forecast_series"

definition run_script :: "'m externals \<Rightarrow> rawtable \<Rightarrow> 'm session \<Rightarrow> 'm outcome" where
  "run_script ext t sess =
     (case load_series ext t of
        Inl e \<Rightarrow> \<lparr>session_after = sess, fit_calls = 0, result = Inl e\<rparr>
      | Inr data \<Rightarrow>
          (case model sess of
             Some m \<Rightarrow>
               \<lparr>session_after = sess, fit_calls = 0, result = assemble_forecast ext m data\<rparr>
           | None \<Rightarrow>
               (case auto_arima ext data of
                  Inl e \<Rightarrow> \<lparr>session_after = sess, fit_calls = 1, result = Inl e\<rparr>
                | Inr m \<Rightarrow>
                    \<lparr>session_after = sess\<lparr>model := Some m\<rparr>, fit_calls = 1,
                     result = assemble_forecast ext m data\<rparr>)))"

text \<open>A session: the script runs once for each interaction, on the file as it then is.\<close>

fun run_session :: "'m externals \<Rightarrow> 'm session \<Rightarrow> rawtable list \<Rightarrow> 'm outcome list" where
  "run_session ext sess [] = []"
| "run_session ext sess (t # ts) =
     (let out = run_script ext t sess in out # run_session ext (session_after out) ts)"

section \<open>Notions of the specification\<close>

text \<open>The order of timestamps: by date, then by time of day.\<close>

definition ts_less :: "timestamp \<Rightarrow> timestamp \<Rightarrow> bool" where
  "ts_less a b =
     (year a < year b \<or> (year a = year b \<and>
       (month a < month b \<or> (month a = month b \<and>
         (day a < day b \<or> (day a = day b \<and> tod a < tod b))))))"

text \<open>A month-end date: the last day of a month of the calendar.\<close>

definition month_end :: "timestamp \<Rightarrow> bool" where
  "month_end ts = (1 \<le> month ts \<and> month ts \<le> 12 \<and> day ts = days_in_month (year ts) (month ts))"

text \<open>The last day of the month after the one of \<open>ts\<close>, at the same time of day.\<close>

definition next_month_end :: "timestamp \<Rightarrow> timestamp" where
  "next_month_end ts =
     (let y = (if month ts = 12 then year ts + 1 else year ts);
          m = (if month ts = 12 then 1 else month ts + 1)
      in \<lparr>year = y, month = m, day = days_in_month y m, tod = tod ts\<rparr>)"

text \<open>The last day of the month before the one of \<open>ts\<close>, at the same time of day.\<close>

definition previous_month_end :: "timestamp \<Rightarrow> timestamp" where
  "previous_month_end ts =
     (let y = (if month ts = 1 then year ts - 1 else year ts);
          m = (if month ts = 1 then 12 else month ts - 1)
      in \<lparr>year = y, month = m, day = days_in_month y m, tod = tod ts\<rparr>)"

text \<open>The months of the calendar, counted: consecutive months differ by one.\<close>

definition month_number :: "timestamp \<Rightarrow> int" where
  "month_number ts = 12 * year ts + month ts"

text \<open>
  The three parts of the invariant the specification gives a canonical series, for a
  series without \<open>NaT\<close>: strictly increasing dates, one entry for every month from the
  first to the last, no missing value.
\<close>

definition strictly_increasing :: "timestamp list \<Rightarrow> bool" where
  "strictly_increasing ds = sorted_wrt ts_less ds"

definition no_month_gaps :: "timestamp list \<Rightarrow> bool" where
  "no_month_gaps ds = (map month_number (drop 1 ds) = map (\<lambda>d. month_number d + 1) (butlast ds))"

definition no_missing :: "pyfloat list \<Rightarrow> bool" where
  "no_missing vs = list_all (\<lambda>v. \<not> isna v) vs"

definition canonical_series :: "series \<Rightarrow> bool" where
  "canonical_series s =
     (list_all (\<lambda>k. k \<noteq> None) (map fst s) \<and>
      strictly_increasing (map the (map fst s)) \<and>
      no_month_gaps (map the (map fst s)) \<and>
      no_missing (map snd s))"

text \<open>The most recent value that is not missing, or NaN when there is none.\<close>

definition last_valid :: "pyfloat list \<Rightarrow> pyfloat" where
  "last_valid vs = (case filter (\<lambda>v. \<not> isna v) vs of [] \<Rightarrow> NaN | w # ws \<Rightarrow> last (w # ws))"

text \<open>Missing values stand only before the first value that is not missing.\<close>

definition missing_only_leading :: "pyfloat list \<Rightarrow> bool" where
  "missing_only_leading vs = no_missing (dropWhile isna vs)"

text \<open>The rows deduplication keeps when the entries of \<open>seen\<close> count as met already.\<close>

definition drop_duplicates_from :: "'a list \<Rightarrow> ('a \<times> 'b) list \<Rightarrow> ('a \<times> 'b) list" where
  "drop_duplicates_from seen s = select_rows (map Not (duplicated_from seen (map fst s))) s"

text \<open>
  The calls of \<open>auto_arima\<close> over the runs of a session, and the runs in which the call
  failed: \<open>auto_arima\<close> was called and no model is stored afterwards.
\<close>

definition total_fit_calls :: "'m outcome list \<Rightarrow> nat" where
  "total_fit_calls outs = sum_list (map fit_calls outs)"

definition fit_failed :: "'m outcome \<Rightarrow> bool" where
  "fit_failed out = (fit_calls out = 1 \<and> model (session_after out) = None)"

text \<open>A date of the calendar.\<close>

definition valid_date :: "timestamp \<Rightarrow> bool" where
  "valid_date ts =
     (1 \<le> month ts \<and> month ts \<le> 12 \<and> 1 \<le> day ts \<and> day ts \<le> days_in_month (year ts) (month ts))"

text \<open>
  An input whose dates are all present and valid and fall in consecutive months of the
  calendar, in file order, and whose first revenue value is present.
\<close>

definition monthly_in_order :: "series \<Rightarrow> bool" where
  "monthly_in_order s =
     (list_all (\<lambda>k. k \<noteq> None) (map fst s) \<and>
      list_all valid_date (map the (map fst s)) \<and>
      no_month_gaps (map the (map fst s)) \<and>
      (s \<noteq> [] \<longrightarrow> \<not> isna (snd (hd s))))"

text \<open>
  Two successive rows in chronological month order: the second is in the month of the
  first, at the same time of day, or in the month after it.
\<close>

definition same_or_next_month :: "timestamp \<Rightarrow> timestamp \<Rightarrow> bool" where
  "same_or_next_month a b =
     ((month_number b = month_number a \<and> tod b = tod a) \<or> month_number b = month_number a + 1)"

text \<open>
  An input whose dates are all present and valid and stand in chronological month order,
  a month having one row or several, and whose first revenue value is present.
\<close>

definition months_in_order :: "series \<Rightarrow> bool" where
  "months_in_order s =
     (list_all (\<lambda>k. k \<noteq> None) (map fst s) \<and>
      list_all valid_date (map the (map fst s)) \<and>
      successively same_or_next_month (map the (map fst s)) \<and>
      (s \<noteq> [] \<longrightarrow> \<not> isna (snd (hd s))))"

text \<open>A date at midnight, for the examples.\<close>

definition ymd :: "int \<Rightarrow> int \<Rightarrow> int \<Rightarrow> timestamp" where
  "ymd y m d = \<lparr>year = y, month = m, day = d, tod = 0\<rparr>"

section \<open>Facts about deduplication\<close>

lemma ddf_Nil [simp]: "drop_duplicates_from seen [] = []"
  by (simp add: drop_duplicates_from_def select_rows_def)

lemma ddf_Cons [simp]:
  "drop_duplicates_from seen (r # s) =
     (if fst r \<in> set seen then drop_duplicates_from (fst r # seen) s
      else r # drop_duplicates_from (fst r # seen) s)"
  by (simp add: drop_duplicates_from_def select_rows_def)

lemma drop_duplicates_from_empty: "drop_duplicates s = drop_duplicates_from [] s"
  by (simp add: drop_duplicates_def drop_duplicates_from_def duplicated_def)

lemma ddf_keys: "fst ` set (drop_duplicates_from seen s) = fst ` set s - set seen"
  by (induction s arbitrary: seen) auto

lemma ddf_distinct: "distinct (map fst (drop_duplicates_from seen s))"
proof (induction s arbitrary: seen)
  case Nil
  show ?case by simp
next
  case (Cons r s)
  have "fst r \<notin> fst ` set (drop_duplicates_from (fst r # seen) s)"
    by (simp add: ddf_keys)
  with Cons show ?case by simp
qed

lemma ddf_subseq: "subseq (drop_duplicates_from seen s) s"
  by (induction s arbitrary: seen) auto

lemma ddf_map_of: "k \<notin> set seen \<Longrightarrow> map_of (drop_duplicates_from seen s) k = map_of s k"
proof (induction s arbitrary: seen)
  case Nil
  show ?case by simp
next
  case (Cons r s)
  obtain a b where r: "r = (a, b)" by (cases r)
  show ?case
  proof (cases "k = a")
    case True
    with Cons.prems r show ?thesis by simp
  next
    case False
    with Cons.prems have "k \<notin> set (a # seen)" by simp
    from Cons.IH [OF this] False r show ?thesis by simp
  qed
qed

lemma ddf_cong: "set seen = set seen' \<Longrightarrow> drop_duplicates_from seen s = drop_duplicates_from seen' s"
proof (induction s arbitrary: seen seen')
  case Nil
  show ?case by simp
next
  case (Cons r s)
  from Cons.prems have "set (fst r # seen) = set (fst r # seen')" by simp
  from Cons.IH [OF this] Cons.prems show ?case by simp
qed

lemma ddf_append:
  "drop_duplicates_from seen (xs @ ys) =
     drop_duplicates_from seen xs @ drop_duplicates_from (rev (map fst xs) @ seen) ys"
proof (induction xs arbitrary: seen)
  case Nil
  show ?case by simp
next
  case (Cons r xs)
  have c: "drop_duplicates_from (rev (map fst (r # xs)) @ seen) ys =
        drop_duplicates_from (rev (map fst xs) @ fst r # seen) ys"
    by (rule ddf_cong) auto
  show ?case
    unfolding c by (simp add: Cons.IH [of "fst r # seen"])
qed

lemma ddf_id:
  "distinct (map fst s) \<Longrightarrow> fst ` set s \<inter> set seen = {} \<Longrightarrow> drop_duplicates_from seen s = s"
proof (induction s arbitrary: seen)
  case Nil
  show ?case by simp
next
  case (Cons r s)
  from Cons.prems have "fst ` set s \<inter> set (fst r # seen) = {}" by auto
  with Cons show ?case by auto
qed

section \<open>Facts about forward fill\<close>

lemma length_ffill_from [simp]: "length (ffill_from prev vs) = length vs"
  by (induction vs arbitrary: prev) auto

lemma ffill_from_nth:
  "i < length vs \<Longrightarrow>
   ffill_from prev vs ! i =
     (if isna (vs ! i)
      then (case filter (\<lambda>v. \<not> isna v) (take i vs) of [] \<Rightarrow> prev | w # ws \<Rightarrow> last (w # ws))
      else vs ! i)"
proof (induction vs arbitrary: prev i)
  case Nil
  then show ?case by simp
next
  case (Cons v vs)
  show ?case
  proof (cases i)
    case 0
    then show ?thesis by simp
  next
    case (Suc j)
    with Cons.prems have j: "j < length vs" by simp
    show ?thesis
      using Cons.IH [OF j] Suc by (auto split: list.splits)
  qed
qed

lemma ffill_from_idem: "ffill_from prev (ffill_from prev vs) = ffill_from prev vs"
  by (induction vs arbitrary: prev) auto

lemma ffill_from_no_missing: "\<not> isna prev \<Longrightarrow> no_missing (ffill_from prev vs)"
  by (induction vs arbitrary: prev) (auto simp: no_missing_def)

lemma ffill_missing_only_leading: "missing_only_leading (ffill_from NaN vs)"
proof (induction vs)
  case Nil
  show ?case by (simp add: missing_only_leading_def no_missing_def)
next
  case (Cons v vs)
  show ?case
  proof (cases "isna v")
    case True
    with Cons show ?thesis by (simp add: missing_only_leading_def)
  next
    case False
    with ffill_from_no_missing [of v vs] show ?thesis
      by (simp add: missing_only_leading_def no_missing_def)
  qed
qed

section \<open>Facts about the month-end offset\<close>

lemma shift_month_month_end: "month_end (shift_month a n)"
proof -
  have "0 \<le> (month a + n) mod 12" "(month a + n) mod 12 < 12" by simp_all
  then show ?thesis
    by (auto simp: shift_month_def month_end_def Let_def)
qed

lemma MonthEnd_month_end: "month_end (MonthEnd n a)"
  by (simp add: MonthEnd_def shift_month_month_end)

lemma shift_month_back:
  assumes "1 \<le> month a" "month a \<le> 12"
  shows "shift_month a (- 1) = previous_month_end a"
proof (cases "month a = 1")
  case True
  then show ?thesis
    by (intro timestamp.equality) (simp_all add: shift_month_def previous_month_end_def Let_def)
next
  case False
  with assms have "(month a - 1) mod 12 = month a - 1" "(month a - 1) div 12 = 0"
    "month a - 1 \<noteq> 0"
    by simp_all
  with False show ?thesis
    by (intro timestamp.equality) (simp_all add: shift_month_def previous_month_end_def Let_def)
qed

lemma shift_month_forward:
  assumes "1 \<le> month a" "month a \<le> 12"
  shows "shift_month a 1 = next_month_end a"
proof (cases "month a = 12")
  case True
  then show ?thesis
    by (intro timestamp.equality) (simp_all add: shift_month_def next_month_end_def Let_def)
next
  case False
  show ?thesis
  proof (cases "month a = 11")
    case True
    then show ?thesis
      by (intro timestamp.equality) (simp_all add: shift_month_def next_month_end_def Let_def)
  next
    case n11: False
    with False assms have "(month a + 1) mod 12 = month a + 1" "(month a + 1) div 12 = 0"
      "month a + 1 \<noteq> 0"
      by simp_all
    with False n11 show ?thesis
      by (intro timestamp.equality) (simp_all add: shift_month_def next_month_end_def Let_def)
  qed
qed

lemma MonthEnd_back: "month_end a \<Longrightarrow> MonthEnd (- 1) a = previous_month_end a"
  by (simp add: MonthEnd_def roll_convention_def month_end_def shift_month_back)

lemma MonthEnd_forward: "month_end a \<Longrightarrow> MonthEnd 1 a = next_month_end a"
  by (simp add: MonthEnd_def roll_convention_def month_end_def shift_month_forward)

lemma previous_month_end_inj:
  "month_end a \<Longrightarrow> month_end b \<Longrightarrow> previous_month_end a = previous_month_end b \<Longrightarrow> a = b"
  by (cases a; cases b) (auto simp: previous_month_end_def month_end_def Let_def split: if_splits)

section \<open>Facts about the regularizer\<close>

lemma fill_revenue_keys: "map fst (fill_revenue s) = map fst s"
  by (simp add: fill_revenue_def ffill_def)

lemma fill_revenue_vals: "map snd (fill_revenue s) = ffill (map snd s)"
  by (simp add: fill_revenue_def ffill_def)

lemma fill_revenue_fixed:
  "map snd s = ffill vs \<Longrightarrow> fill_revenue s = s"
proof -
  assume "map snd s = ffill vs"
  then have "ffill (map snd s) = map snd s"
    by (simp add: ffill_def ffill_from_idem)
  then show ?thesis
    by (simp add: fill_revenue_def zip_map_fst_snd)
qed

lemma regularize_keys:
  "map fst (regularize s) = map fst (drop_duplicates (align_month_end s))"
  by (simp add: regularize_def fill_revenue_keys)

lemma regularize_vals:
  "map snd (regularize s) = ffill (map snd (drop_duplicates (align_month_end s)))"
  by (simp add: regularize_def fill_revenue_vals)

lemma regularize_distinct: "distinct (map fst (regularize s))"
  by (simp add: regularize_keys drop_duplicates_from_empty ddf_distinct)

lemma align_keys: "map fst (align_month_end s) = map (add_offset (- 1)) (map fst s)"
  by (simp add: align_month_end_def split_def)

lemma align_vals: "map snd (align_month_end s) = map snd s"
  by (simp add: align_month_end_def split_def)

lemma regularize_key_set: "set (map fst (regularize s)) = add_offset (- 1) ` set (map fst s)"
proof -
  have "set (map fst (regularize s)) = fst ` set (drop_duplicates_from [] (align_month_end s))"
    by (simp add: regularize_keys drop_duplicates_from_empty)
  also have "\<dots> = set (map fst (align_month_end s))"
    by (simp add: ddf_keys)
  finally show ?thesis
    by (simp add: align_keys image_image)
qed

lemma regularize_month_end:
  assumes "Some d \<in> set (map fst (regularize s))"
  shows "month_end d"
proof -
  from assms obtain k where "Some d = add_offset (- 1) k"
    unfolding regularize_key_set by blast
  then show ?thesis
    by (cases k) (auto simp: add_offset_def MonthEnd_month_end)
qed

lemma add_offset_back_inj:
  assumes "\<And>d. k = Some d \<Longrightarrow> month_end d" "\<And>d. k' = Some d \<Longrightarrow> month_end d"
    and "add_offset (- 1) k = add_offset (- 1) k'"
  shows "k = k'"
proof (cases k)
  case None
  with assms(3) show ?thesis by (cases k') (simp_all add: add_offset_def)
next
  case (Some a)
  with assms(3) obtain b where b: "k' = Some b" by (cases k') (simp_all add: add_offset_def)
  from Some b assms have "previous_month_end a = previous_month_end b"
    by (simp add: add_offset_def MonthEnd_back)
  with Some b assms(1,2) show ?thesis
    by (simp add: previous_month_end_inj)
qed

lemma regularize_twice: "regularize (regularize s) = align_month_end (regularize s)"
proof -
  let ?r = "regularize s"
  have inj: "inj_on (add_offset (- 1)) (set (map fst ?r))"
  proof (rule inj_onI)
    fix k k'
    assume k: "k \<in> set (map fst ?r)" and k': "k' \<in> set (map fst ?r)"
      and e: "add_offset (- 1) k = add_offset (- 1) k'"
    have "\<And>d. k = Some d \<Longrightarrow> month_end d" "\<And>d. k' = Some d \<Longrightarrow> month_end d"
      using k k' regularize_month_end by blast+
    then show "k = k'"
      using e by (rule add_offset_back_inj)
  qed
  from regularize_distinct [of s] inj
  have "distinct (map (add_offset (- 1)) (map fst ?r))"
    by (rule iffD2 [OF distinct_map, OF conjI])
  then have "distinct (map fst (align_month_end ?r))"
    by (simp only: align_keys)
  then have dd: "drop_duplicates (align_month_end ?r) = align_month_end ?r"
    by (simp add: drop_duplicates_from_empty ddf_id)
  have "map snd (align_month_end ?r) = ffill (map snd (drop_duplicates (align_month_end s)))"
    by (simp add: align_vals regularize_vals)
  then have "fill_revenue (align_month_end ?r) = align_month_end ?r"
    by (rule fill_revenue_fixed)
  with dd show ?thesis
    by (simp add: regularize_def [of ?r])
qed

lemma shift_month_changes_month: "month (shift_month a (- 1)) \<noteq> month a"
proof -
  have "0 \<le> (month a - 1) mod 12" "(month a - 1) mod 12 < 12" by simp_all
  moreover have "(month a - 1) mod 12 = month a \<Longrightarrow> False"
    by presburger
  moreover have "(month a - 1) mod 12 = 0 \<Longrightarrow> month a = 12 \<Longrightarrow> False"
    by presburger
  ultimately show ?thesis
    by (auto simp: shift_month_def Let_def)
qed

lemma MonthEnd_back_moves: "MonthEnd (- 1) a \<noteq> a"
proof (cases "day a > days_in_month (year a) (month a)")
  case False
  then have "MonthEnd (- 1) a = shift_month a (- 1)"
    by (simp add: MonthEnd_def roll_convention_def)
  with shift_month_changes_month [of a] show ?thesis by auto
next
  case True
  then have e: "MonthEnd (- 1) a = shift_month a 0"
    by (simp add: MonthEnd_def roll_convention_def)
  show ?thesis
  proof
    assume "MonthEnd (- 1) a = a"
    with e have s: "shift_month a 0 = a" by simp
    from shift_month_month_end [of a 0] s have "month_end a" by simp
    with True show False by (simp add: month_end_def)
  qed
qed

lemma no_month_gaps_simps [simp]:
  "no_month_gaps []" "no_month_gaps [x]"
  "no_month_gaps (x # y # zs) = (month_number y = month_number x + 1 \<and> no_month_gaps (y # zs))"
  by (auto simp: no_month_gaps_def)

lemma no_month_gaps_sorted:
  "no_month_gaps ds \<Longrightarrow> sorted_wrt (\<lambda>a b. month_number a < month_number b) ds"
proof (induction ds rule: induct_list012)
  case (3 x y zs)
  then have xy: "month_number y = month_number x + 1"
    and s: "sorted_wrt (\<lambda>a b. month_number a < month_number b) (y # zs)"
    by simp_all
  from s have "\<forall>z\<in>set zs. month_number y < month_number z" by simp
  with xy have "\<forall>z\<in>set (y # zs). month_number x < month_number z" by auto
  with s show ?case by simp
qed simp_all

lemma sorted_wrt_month_number_distinct:
  "sorted_wrt (\<lambda>a b. month_number a < month_number b) ds \<Longrightarrow> distinct ds"
  by (induction ds) auto

lemma month_number_ts_less:
  "month_end a \<Longrightarrow> month_end b \<Longrightarrow> month_number a < month_number b \<Longrightarrow> ts_less a b"
  by (auto simp: month_end_def month_number_def ts_less_def)

lemma MonthEnd_back_valid: "valid_date d \<Longrightarrow> MonthEnd (- 1) d = previous_month_end d"
  by (simp add: valid_date_def MonthEnd_def roll_convention_def shift_month_back)

lemma month_number_previous:
  "1 \<le> month d \<Longrightarrow> month d \<le> 12 \<Longrightarrow> month_number (previous_month_end d) = month_number d - 1"
  by (simp add: month_number_def previous_month_end_def Let_def)

lemma month_number_next:
  "1 \<le> month d \<Longrightarrow> month d \<le> 12 \<Longrightarrow> month_number (next_month_end d) = month_number d + 1"
  by (simp add: month_number_def next_month_end_def Let_def)

lemma no_month_gaps_aligned:
  "list_all valid_date ds \<Longrightarrow> no_month_gaps ds \<Longrightarrow> no_month_gaps (map (MonthEnd (- 1)) ds)"
proof (induction ds rule: induct_list012)
  case (3 x y zs)
  then have vx: "valid_date x" and vy: "valid_date y"
    and xy: "month_number y = month_number x + 1"
    and r: "no_month_gaps (map (MonthEnd (- 1)) (y # zs))"
    by simp_all
  from vx vy xy have "month_number (MonthEnd (- 1) y) = month_number (MonthEnd (- 1) x) + 1"
    by (simp add: MonthEnd_back_valid month_number_previous valid_date_def)
  with r show ?case by simp
qed simp_all

lemma ffill_first_present:
  "vs \<noteq> [] \<longrightarrow> \<not> isna (hd vs) \<Longrightarrow> no_missing (ffill vs)"
proof (cases vs)
  case Nil
  then show ?thesis by (simp add: ffill_def no_missing_def)
next
  case (Cons v ws)
  assume "vs \<noteq> [] \<longrightarrow> \<not> isna (hd vs)"
  with Cons have v: "\<not> isna v" by simp
  from ffill_from_no_missing [OF v, of ws] v Cons show ?thesis
    by (simp add: ffill_def no_missing_def)
qed

lemma regularize_monthly_in_order:
  assumes "monthly_in_order s"
  shows "canonical_series (regularize s)"
proof -
  let ?ds = "map the (map fst s)"
  let ?ads = "map (MonthEnd (- 1)) ?ds"
  from assms have some: "list_all (\<lambda>k. k \<noteq> None) (map fst s)"
    and valid: "list_all valid_date ?ds" and gaps: "no_month_gaps ?ds"
    and first: "s \<noteq> [] \<longrightarrow> \<not> isna (snd (hd s))"
    by (simp_all add: monthly_in_order_def)
  from some have ks: "map fst s = map Some ?ds"
    by (induction s) auto
  have aks: "map fst (align_month_end s) = map Some ?ads"
    by (subst align_keys, subst ks) (simp add: add_offset_def)
  from valid gaps have agaps: "no_month_gaps ?ads"
    by (rule no_month_gaps_aligned)
  then have srt: "sorted_wrt (\<lambda>a b. month_number a < month_number b) ?ads"
    by (rule no_month_gaps_sorted)
  then have "distinct ?ads"
    by (rule sorted_wrt_month_number_distinct)
  moreover have "inj_on Some (set ?ads)" by simp
  ultimately have "distinct (map Some ?ads)"
    by (rule iffD2 [OF distinct_map, OF conjI])
  with aks have "distinct (map fst (align_month_end s))" by simp
  then have dd: "drop_duplicates (align_month_end s) = align_month_end s"
    by (simp add: drop_duplicates_from_empty ddf_id)
  have keys: "map fst (regularize s) = map Some ?ads"
    by (simp add: regularize_keys dd aks)
  have vals: "map snd (regularize s) = ffill (map snd s)"
    by (simp add: regularize_vals dd align_vals)
  have the_keys: "map the (map fst (regularize s)) = ?ads"
    by (simp add: keys comp_def)
  have me: "\<forall>a\<in>set ?ads. month_end a"
    by (auto simp: MonthEnd_month_end)
  have "sorted_wrt ts_less ?ads"
  proof (rule sorted_wrt_mono_rel [OF _ srt])
    fix a b
    assume "a \<in> set ?ads" "b \<in> set ?ads" "month_number a < month_number b"
    with me show "ts_less a b" by (blast intro: month_number_ts_less)
  qed
  moreover from first have "no_missing (ffill (map snd s))"
    by (intro ffill_first_present) (cases s, simp_all)
  moreover have "list_all (\<lambda>k. k \<noteq> None) (map fst (regularize s))"
    by (simp add: keys list_all_iff)
  ultimately show ?thesis
    using agaps unfolding canonical_series_def strictly_increasing_def the_keys vals by simp
qed

lemma aligned_same_month:
  assumes "valid_date a" "valid_date b" "month_number b = month_number a" "tod b = tod a"
  shows "MonthEnd (- 1) b = MonthEnd (- 1) a"
proof -
  from assms have "1 \<le> month a" "month a \<le> 12" "1 \<le> month b" "month b \<le> 12"
    and "12 * year b + month b = 12 * year a + month a"
    by (simp_all add: valid_date_def month_number_def)
  then have "month b = month a" "year b = year a"
    by presburger+
  with assms show ?thesis
    by (simp add: MonthEnd_back_valid previous_month_end_def)
qed

lemma aligned_next_month:
  assumes "valid_date a" "valid_date b" "month_number b = month_number a + 1"
  shows "month_number (MonthEnd (- 1) b) = month_number (MonthEnd (- 1) a) + 1"
  using assms by (simp add: MonthEnd_back_valid month_number_previous valid_date_def)

lemma no_month_gaps_increasing:
  assumes "\<forall>a\<in>set ds. month_end a" "no_month_gaps ds"
  shows "strictly_increasing ds"
  unfolding strictly_increasing_def
proof (rule sorted_wrt_mono_rel [OF _ no_month_gaps_sorted [OF assms(2)]])
  fix a b
  assume "a \<in> set ds" "b \<in> set ds" "month_number a < month_number b"
  with assms(1) show "ts_less a b" by (blast intro: month_number_ts_less)
qed

lemma ffill_no_missing_iff: "no_missing (ffill vs) = (vs \<noteq> [] \<longrightarrow> \<not> isna (hd vs))"
proof (cases vs)
  case Nil
  then show ?thesis by (simp add: ffill_def no_missing_def)
next
  case (Cons v ws)
  show ?thesis
  proof (cases "isna v")
    case True
    with Cons show ?thesis by (simp add: ffill_def no_missing_def)
  next
    case False
    with ffill_first_present [of vs] Cons show ?thesis by simp
  qed
qed

lemma dedup_hd:
  "s \<noteq> [] \<Longrightarrow> drop_duplicates (align_month_end s) \<noteq> [] \<and>
     snd (hd (drop_duplicates (align_month_end s))) = snd (hd s)"
  by (cases s) (simp_all add: drop_duplicates_from_empty align_month_end_def split_def)

lemma regularize_no_NaT:
  "list_all (\<lambda>k. k \<noteq> None) (map fst (regularize s)) = list_all (\<lambda>k. k \<noteq> None) (map fst s)"
proof -
  have "(None \<in> set (map fst (regularize s))) = (None \<in> set (map fst s))"
    unfolding regularize_key_set by (auto simp: add_offset_def)
  then show ?thesis
    unfolding list_all_iff by metis
qed

lemma regularize_canonical_iff:
  "canonical_series (regularize s) =
     (list_all (\<lambda>k. k \<noteq> None) (map fst s) \<and>
      no_month_gaps (map the (map fst (drop_duplicates (align_month_end s)))) \<and>
      (s \<noteq> [] \<longrightarrow> \<not> isna (snd (hd s))))"
proof -
  let ?dd = "drop_duplicates (align_month_end s)"
  have vals: "no_missing (map snd (regularize s)) = (s \<noteq> [] \<longrightarrow> \<not> isna (snd (hd s)))"
  proof (cases "s = []")
    case True
    then show ?thesis
      by (simp add: regularize_vals drop_duplicates_from_empty align_month_end_def ffill_def
          no_missing_def)
  next
    case False
    from dedup_hd [OF False] False show ?thesis
      by (simp add: regularize_vals ffill_no_missing_iff hd_map)
  qed
  have inc: "strictly_increasing (map the (map fst ?dd))"
    if some: "list_all (\<lambda>k. k \<noteq> None) (map fst s)"
      and gaps: "no_month_gaps (map the (map fst ?dd))"
  proof (rule no_month_gaps_increasing [OF _ gaps])
    show "\<forall>a\<in>set (map the (map fst ?dd)). month_end a"
    proof
      fix a assume "a \<in> set (map the (map fst ?dd))"
      then obtain k where k: "k \<in> set (map fst (regularize s))" "a = the k"
        unfolding regularize_keys by auto
      from some have "list_all (\<lambda>k. k \<noteq> None) (map fst (regularize s))"
        by (simp only: regularize_no_NaT)
      with k(1) have "k \<noteq> None"
        unfolding list_all_iff by blast
      with k have "Some a \<in> set (map fst (regularize s))"
        by (cases k) simp_all
      then show "month_end a" by (rule regularize_month_end)
    qed
  qed
  show ?thesis
    unfolding canonical_series_def vals regularize_no_NaT
    using inc by (auto simp: regularize_keys)
qed

lemma ddf_chain:
  assumes "successively (\<lambda>a b. b = a \<or> month_number (the b) = month_number (the a) + 1)
             (k # map fst t)"
    and "k \<in> set seen"
    and "\<forall>x\<in>set seen. month_number (the x) \<le> month_number (the k)"
  shows "drop_duplicates_from seen t = [] \<or>
         (month_number (the (fst (hd (drop_duplicates_from seen t)))) = month_number (the k) + 1 \<and>
          no_month_gaps (map the (map fst (drop_duplicates_from seen t))))"
  using assms
proof (induction t arbitrary: k seen)
  case Nil
  then show ?case by simp
next
  case (Cons r t)
  let ?R = "\<lambda>a b. b = a \<or> month_number (the b) = month_number (the a) + 1"
  from Cons.prems(1) have step: "?R k (fst r)" and rest: "successively ?R (fst r # map fst t)"
    by simp_all
  show ?case
  proof (cases "fst r = k")
    case True
    with Cons.prems have dd: "drop_duplicates_from seen (r # t) = drop_duplicates_from (k # seen) t"
      by simp
    from rest True have "successively ?R (k # map fst t)" by simp
    moreover have "k \<in> set (k # seen)" by simp
    moreover from Cons.prems(3)
    have "\<forall>x\<in>set (k # seen). month_number (the x) \<le> month_number (the k)" by simp
    ultimately show ?thesis
      unfolding dd by (rule Cons.IH)
  next
    case False
    with step have mn: "month_number (the (fst r)) = month_number (the k) + 1" by simp
    with Cons.prems(3) have "fst r \<notin> set seen" by fastforce
    then have dd: "drop_duplicates_from seen (r # t) = r # drop_duplicates_from (fst r # seen) t"
      by simp
    have "fst r \<in> set (fst r # seen)" by simp
    moreover from Cons.prems(3) mn
    have "\<forall>x\<in>set (fst r # seen). month_number (the x) \<le> month_number (the (fst r))"
      by fastforce
    ultimately have IH: "drop_duplicates_from (fst r # seen) t = [] \<or>
         (month_number (the (fst (hd (drop_duplicates_from (fst r # seen) t)))) =
            month_number (the (fst r)) + 1 \<and>
          no_month_gaps (map the (map fst (drop_duplicates_from (fst r # seen) t))))"
      using rest by (intro Cons.IH)
    show ?thesis
    proof (cases "drop_duplicates_from (fst r # seen) t")
      case Nil
      with dd mn show ?thesis by simp
    next
      case (Cons h tl)
      with IH dd mn show ?thesis by simp
    qed
  qed
qed

lemma aligned_chain:
  assumes "list_all (\<lambda>k. k \<noteq> None) (map fst s)"
    and "list_all valid_date (map the (map fst s))"
    and "successively same_or_next_month (map the (map fst s))"
  shows "successively (\<lambda>a b. b = a \<or> month_number (the b) = month_number (the a) + 1)
           (map fst (align_month_end s))"
  using assms
proof (induction s rule: induct_list012)
  case 1
  then show ?case by (simp add: align_month_end_def)
next
  case (2 x)
  then show ?case by (simp add: align_month_end_def)
next
  case (3 x y zs)
  from "3.prems" obtain a b where a: "fst x = Some a" and b: "fst y = Some b" by auto
  from "3.prems" a b have va: "valid_date a" and vb: "valid_date b"
    and st: "same_or_next_month a b" by simp_all
  from "3.prems" have "successively (\<lambda>a b. b = a \<or> month_number (the b) = month_number (the a) + 1)
           (map fst (align_month_end (y # zs)))"
    by (intro "3.IH") simp_all
  moreover from st have "MonthEnd (- 1) b = MonthEnd (- 1) a \<or>
      month_number (MonthEnd (- 1) b) = month_number (MonthEnd (- 1) a) + 1"
    unfolding same_or_next_month_def
    using aligned_same_month [OF va vb] aligned_next_month [OF va vb] by blast
  ultimately show ?case
    using a b by (simp add: align_month_end_def split_def add_offset_def)
qed

lemma regularize_months_in_order:
  assumes "months_in_order s"
  shows "canonical_series (regularize s)"
proof -
  from assms have some: "list_all (\<lambda>k. k \<noteq> None) (map fst s)"
    and valid: "list_all valid_date (map the (map fst s))"
    and steps: "successively same_or_next_month (map the (map fst s))"
    and first: "s \<noteq> [] \<longrightarrow> \<not> isna (snd (hd s))"
    by (simp_all add: months_in_order_def)
  have "no_month_gaps (map the (map fst (drop_duplicates (align_month_end s))))"
  proof (cases "align_month_end s")
    case Nil
    then show ?thesis by (simp add: drop_duplicates_from_empty)
  next
    case (Cons r t)
    from aligned_chain [OF some valid steps] Cons
    have "successively (\<lambda>a b. b = a \<or> month_number (the b) = month_number (the a) + 1)
            (fst r # map fst t)" by simp
    moreover have "fst r \<in> set [fst r]" by simp
    moreover have "\<forall>x\<in>set [fst r]. month_number (the x) \<le> month_number (the (fst r))" by simp
    ultimately have c: "drop_duplicates_from [fst r] t = [] \<or>
         (month_number (the (fst (hd (drop_duplicates_from [fst r] t)))) =
            month_number (the (fst r)) + 1 \<and>
          no_month_gaps (map the (map fst (drop_duplicates_from [fst r] t))))"
      by (rule ddf_chain)
    show ?thesis
    proof (cases "drop_duplicates_from [fst r] t")
      case Nil
      with Cons show ?thesis by (simp add: drop_duplicates_from_empty)
    next
      case (Cons h tl)
      with c \<open>align_month_end s = r # t\<close> show ?thesis
        by (simp add: drop_duplicates_from_empty)
    qed
  qed
  with some first show ?thesis
    by (simp add: regularize_canonical_iff)
qed

lemma monthly_is_months_in_order: "monthly_in_order s \<Longrightarrow> months_in_order s"
proof -
  have "no_month_gaps ds \<Longrightarrow> successively same_or_next_month ds" for ds
    by (induction ds rule: induct_list012) (simp_all add: same_or_next_month_def)
  then show "monthly_in_order s \<Longrightarrow> months_in_order s"
    by (simp add: monthly_in_order_def months_in_order_def)
qed

lemma regularize_subseq:
  "subseq (map fst (regularize s)) (map fst (align_month_end s))"
  by (simp add: regularize_keys drop_duplicates_from_empty subseq_map ddf_subseq)

lemma regularize_missing_only_leading: "missing_only_leading (map snd (regularize s))"
  by (simp add: regularize_vals ffill_def ffill_missing_only_leading)

lemma regularize_moves:
  assumes "Some a \<in> set (map fst s)"
  shows "regularize (regularize s) \<noteq> regularize s"
proof
  let ?r = "regularize s"
  assume "regularize ?r = ?r"
  then have same: "align_month_end ?r = ?r" by (simp add: regularize_twice)
  from assms have "add_offset (- 1) (Some a) \<in> set (map fst ?r)"
    unfolding regularize_key_set by (rule imageI)
  then obtain d where "Some d \<in> set (map fst ?r)" by (auto simp: add_offset_def)
  then obtain v where "(Some d, v) \<in> set ?r" by auto
  then obtain p where p: "p < length ?r" "?r ! p = (Some d, v)"
    by (auto simp: in_set_conv_nth)
  then have "align_month_end ?r ! p = (Some (MonthEnd (- 1) d), v)"
    by (simp add: align_month_end_def add_offset_def)
  with same p have "MonthEnd (- 1) d = d" by simp
  with MonthEnd_back_moves [of d] show False by simp
qed

lemma ddf_remove:
  assumes "fst r \<in> set seen \<union> fst ` set xs"
  shows "drop_duplicates_from seen (xs @ r # ys) = drop_duplicates_from seen (xs @ ys)"
proof -
  let ?seen = "rev (map fst xs) @ seen"
  from assms have in_seen: "fst r \<in> set ?seen" by auto
  then have "set (fst r # ?seen) = set ?seen" by auto
  then have "drop_duplicates_from (fst r # ?seen) ys = drop_duplicates_from ?seen ys"
    by (rule ddf_cong)
  with in_seen have "drop_duplicates_from ?seen (r # ys) = drop_duplicates_from ?seen ys"
    by simp
  then show ?thesis
    by (simp add: ddf_append)
qed

lemma align_append: "align_month_end (xs @ ys) = align_month_end xs @ align_month_end ys"
  by (simp add: align_month_end_def)

lemma align_nth:
  "i < length s \<Longrightarrow> align_month_end s ! i = (add_offset (- 1) (fst (s ! i)), snd (s ! i))"
  by (simp add: align_month_end_def split_def)

lemma length_align [simp]: "length (align_month_end s) = length s"
  by (simp add: align_month_end_def)

lemma regularize_remove_later:
  assumes "i < j" "j < length s"
    and "add_offset (- 1) (fst (s ! i)) = add_offset (- 1) (fst (s ! j))"
  shows "regularize (take j s @ drop (Suc j) s) = regularize s"
proof -
  let ?a = "align_month_end"
  let ?r = "(add_offset (- 1) (fst (s ! j)), snd (s ! j))"
  from assms have i: "i < length (?a (take j s))" by simp
  then have "?a (take j s) ! i \<in> set (?a (take j s))"
    by (rule nth_mem)
  moreover from assms have "fst (?a (take j s) ! i) = fst ?r"
    by (simp add: align_nth)
  ultimately have "fst ?r \<in> set [] \<union> fst ` set (?a (take j s))"
    by (metis UnI2 imageI)
  then have rem: "drop_duplicates_from [] (?a (take j s) @ ?r # ?a (drop (Suc j) s)) =
        drop_duplicates_from [] (?a (take j s) @ ?a (drop (Suc j) s))"
    by (rule ddf_remove)
  from assms have "?a s = ?a (take j s @ s ! j # drop (Suc j) s)"
    by (simp add: id_take_nth_drop [symmetric])
  also have "\<dots> = ?a (take j s) @ ?r # ?a (drop (Suc j) s)"
    by (simp add: align_month_end_def split_def)
  finally have "drop_duplicates (?a s) = drop_duplicates (?a (take j s @ drop (Suc j) s))"
    using rem by (simp add: drop_duplicates_from_empty align_append)
  then show ?thesis
    by (simp add: regularize_def)
qed

lemma count_distinct_key:
  "distinct (map fst xs) \<Longrightarrow> k \<in> set (map fst xs) \<Longrightarrow> length (filter (\<lambda>r. fst r = k) xs) = 1"
proof (induction xs)
  case Nil
  then show ?case by simp
next
  case (Cons x xs)
  show ?case
  proof (cases "fst x = k")
    case True
    with Cons.prems have "k \<notin> fst ` set xs" by auto
    then have "filter (\<lambda>r. fst r = k) xs = []"
      by (auto simp: filter_empty_conv)
    with True show ?thesis by simp
  next
    case False
    with Cons show ?thesis by auto
  qed
qed

lemma map_of_first:
  "i < length xs \<Longrightarrow> fst (xs ! i) = k \<Longrightarrow> \<forall>i'<i. fst (xs ! i') \<noteq> k \<Longrightarrow>
   map_of xs k = Some (snd (xs ! i))"
proof (induction xs arbitrary: i)
  case Nil
  then show ?case by simp
next
  case (Cons x xs)
  show ?case
  proof (cases i)
    case 0
    with Cons.prems show ?thesis by (cases x) auto
  next
    case (Suc n)
    with Cons.prems have "fst x \<noteq> k" by auto
    moreover from Suc Cons.prems have "n < length xs" "fst (xs ! n) = k" "\<forall>i'<n. fst (xs ! i') \<noteq> k"
      by auto
    then have "map_of xs k = Some (snd (xs ! n))" by (rule Cons.IH)
    ultimately show ?thesis using Suc by (cases x) auto
  qed
qed

lemma regularize_map_of:
  assumes "map_of (align_month_end s) k = Some v" "\<not> isna v"
  shows "map_of (regularize s) k = Some v"
proof -
  let ?dd = "drop_duplicates (align_month_end s)"
  from assms(1) have "map_of ?dd k = Some v"
    by (simp add: drop_duplicates_from_empty ddf_map_of)
  then have "(k, v) \<in> set ?dd" by (rule map_of_SomeD)
  then obtain p where p: "p < length ?dd" "?dd ! p = (k, v)"
    by (auto simp: in_set_conv_nth)
  have d: "distinct (map fst ?dd)"
    by (simp add: drop_duplicates_from_empty ddf_distinct)
  have len: "length (map fst ?dd) = length (ffill (map snd ?dd))"
    by (simp add: ffill_def)
  from p have pl: "p < length (ffill (map snd ?dd))" by (simp add: ffill_def)
  from p assms(2) have "ffill (map snd ?dd) ! p = v"
    by (simp add: ffill_def ffill_from_nth)
  with map_of_zip_nth [OF len d pl] p show ?thesis
    by (simp add: regularize_def fill_revenue_def)
qed

lemma dedup_remove_later:
  assumes "i < j" "j < length s"
    and "add_offset (- 1) (fst (s ! i)) = add_offset (- 1) (fst (s ! j))"
  shows "drop_duplicates (align_month_end (take j s @ drop (Suc j) s)) =
         drop_duplicates (align_month_end s)"
proof -
  let ?a = "align_month_end"
  let ?r = "(add_offset (- 1) (fst (s ! j)), snd (s ! j))"
  from assms have i: "i < length (?a (take j s))" by simp
  then have "?a (take j s) ! i \<in> set (?a (take j s))"
    by (rule nth_mem)
  moreover from assms have "fst (?a (take j s) ! i) = fst ?r"
    by (simp add: align_nth)
  ultimately have "fst ?r \<in> set [] \<union> fst ` set (?a (take j s))"
    by (metis UnI2 imageI)
  then have rem: "drop_duplicates_from [] (?a (take j s) @ ?r # ?a (drop (Suc j) s)) =
        drop_duplicates_from [] (?a (take j s) @ ?a (drop (Suc j) s))"
    by (rule ddf_remove)
  from assms have "?a s = ?a (take j s @ s ! j # drop (Suc j) s)"
    by (simp add: id_take_nth_drop [symmetric])
  also have "\<dots> = ?a (take j s) @ ?r # ?a (drop (Suc j) s)"
    by (simp add: align_month_end_def split_def)
  finally show ?thesis
    using rem by (simp add: drop_duplicates_from_empty align_append)
qed

lemma first_occurrence:
  assumes "P (i::nat)"
  shows "\<exists>f\<le>i. P f \<and> (\<forall>i'<f. \<not> P i')"
proof -
  let ?f = "LEAST n. P n"
  from assms have "P ?f" by (rule LeastI)
  moreover from assms have "?f \<le> i" by (rule Least_le)
  moreover have "\<forall>i'<?f. \<not> P i'" using not_less_Least by blast
  ultimately show ?thesis by blast
qed

lemma takeWhile_before_key:
  assumes "distinct (map fst xs)" "p < length xs" "fst (xs ! p) = k"
  shows "takeWhile (\<lambda>r. fst r \<noteq> k) xs = take p xs"
proof (rule takeWhile_eq_take_P_nth)
  fix i assume "i < p" "i < length xs"
  with assms have "map fst xs ! i \<noteq> map fst xs ! p"
    by (simp add: nth_eq_iff_index_eq del: nth_map)
  with assms \<open>i < length xs\<close> show "fst (xs ! i) \<noteq> k" by simp
next
  assume "p < length xs"
  with assms show "\<not> fst (xs ! p) \<noteq> k" by simp
qed

lemma regularize_lookup:
  assumes "map_of (align_month_end s) k = Some v"
  shows "map_of (drop_duplicates (align_month_end s)) k = Some v"
    and "map_of (regularize s) k =
           Some (if isna v
                 then last_valid (map snd (takeWhile (\<lambda>r. fst r \<noteq> k)
                        (drop_duplicates (align_month_end s))))
                 else v)"
proof -
  let ?dd = "drop_duplicates (align_month_end s)"
  from assms show m: "map_of ?dd k = Some v"
    by (simp add: drop_duplicates_from_empty ddf_map_of)
  then have "(k, v) \<in> set ?dd" by (rule map_of_SomeD)
  then obtain p where p: "p < length ?dd" "?dd ! p = (k, v)"
    by (auto simp: in_set_conv_nth)
  have d: "distinct (map fst ?dd)"
    by (simp add: drop_duplicates_from_empty ddf_distinct)
  have len: "length (map fst ?dd) = length (ffill (map snd ?dd))"
    by (simp add: ffill_def)
  from p have pl: "p < length (ffill (map snd ?dd))" by (simp add: ffill_def)
  from p have tw: "takeWhile (\<lambda>r. fst r \<noteq> k) ?dd = take p ?dd"
    by (intro takeWhile_before_key [OF d]) simp_all
  from p have "ffill (map snd ?dd) ! p =
      (if isna v then last_valid (take p (map snd ?dd)) else v)"
    by (simp add: ffill_def ffill_from_nth last_valid_def)
  with map_of_zip_nth [OF len d pl] p
  show "map_of (regularize s) k =
           Some (if isna v then last_valid (map snd (takeWhile (\<lambda>r. fst r \<noteq> k) ?dd)) else v)"
    unfolding tw by (simp add: regularize_def fill_revenue_def take_map)
qed

section \<open>Facts about the forecast index\<close>

lemma month_ends_length [simp]: "length (month_ends cur n) = n"
  by (induction n arbitrary: cur) auto

lemma month_end_next: "month_end d \<Longrightarrow> month_end (next_month_end d)"
  using MonthEnd_month_end [of 1 d] by (simp add: MonthEnd_forward)

lemma month_ends_Suc: "month_end cur \<Longrightarrow> month_ends cur (Suc n) = cur # month_ends (next_month_end cur) n"
  by (simp add: MonthEnd_forward)

lemma month_ends_props:
  "month_end cur \<Longrightarrow>
   (\<forall>x\<in>set (month_ends cur n). month_end x \<and> month_number cur \<le> month_number x) \<and>
   no_month_gaps (month_ends cur n)"
proof (induction n arbitrary: cur)
  case 0
  show ?case by simp
next
  case (Suc n)
  let ?nxt = "next_month_end cur"
  from Suc.prems have nx: "month_end ?nxt" by (rule month_end_next)
  from Suc.prems have mn: "month_number ?nxt = month_number cur + 1"
    by (simp add: month_end_def month_number_next)
  from Suc.IH [OF nx] have
    ih1: "\<forall>x\<in>set (month_ends ?nxt n). month_end x \<and> month_number ?nxt \<le> month_number x"
    and ih2: "no_month_gaps (month_ends ?nxt n)" by simp_all
  have "no_month_gaps (cur # month_ends ?nxt n)"
  proof (cases n)
    case 0
    then show ?thesis by simp
  next
    case (Suc k)
    with ih2 nx mn show ?thesis by (simp add: month_ends_Suc)
  qed
  moreover from Suc.prems have "month_ends cur (Suc n) = cur # month_ends ?nxt n"
    by (rule month_ends_Suc)
  ultimately show ?case
    using ih1 mn Suc.prems by (auto simp del: month_ends.simps)
qed

lemma forecast_index_regular:
  assumes "data \<noteq> []" "fst (last data) = Some d" "month_end d"
  shows "forecast_index data = Inr (month_ends (next_month_end d) 60)"
proof -
  have "n_periods + 1 = Suc 60" by (simp add: n_periods_def)
  moreover from assms(3) have "rollforward d = d"
    by (simp add: rollforward_def is_on_offset_def month_end_def)
  ultimately have dr: "date_range d (n_periods + 1) = d # month_ends (next_month_end d) 60"
    using month_ends_Suc [OF assms(3), of 60] by (simp only: date_range_def)
  from assms(1,2) have "forecast_index data = Inr (drop 1 (date_range d (n_periods + 1)))"
    by (simp add: forecast_index_def)
  then show ?thesis
    unfolding dr by simp
qed

section \<open>Facts about the column normalizer\<close>

lemma month_like_Month: "month_like ''Month''"
  by (simp add: month_like_def strip_def py_isspace_def lower_def lower_char_def upper_letters_def lower_letters_def)

lemma first_month_like_Some:
  "first_month_like cols = Some c \<Longrightarrow> c \<in> set cols \<and> month_like c"
  by (induction cols) (auto split: if_splits)

lemma first_month_like_None:
  "(first_month_like cols = None) = (\<forall>c\<in>set cols. \<not> month_like c)"
  by (induction cols) auto

lemma first_month_like_index:
  "first_month_like cols = Some c \<Longrightarrow>
   \<exists>i<length cols. cols ! i = c \<and> month_like c \<and> (\<forall>j<i. \<not> month_like (cols ! j))"
proof (induction cols)
  case Nil
  then show ?case by simp
next
  case (Cons x xs)
  show ?case
  proof (cases "month_like x")
    case True
    with Cons.prems have "x = c" by simp
    with True have "(x # xs) ! 0 = c \<and> month_like c \<and> (\<forall>j<0. \<not> month_like ((x # xs) ! j))"
      by simp
    then show ?thesis by blast
  next
    case False
    with Cons.prems have "first_month_like xs = Some c" by simp
    from Cons.IH [OF this] obtain i where i: "i < length xs" "xs ! i = c" "month_like c"
      "\<forall>j<i. \<not> month_like (xs ! j)" by blast
    have "\<forall>j<Suc i. \<not> month_like ((x # xs) ! j)"
    proof (intro allI impI)
      fix j assume "j < Suc i"
      with False i(4) show "\<not> month_like ((x # xs) ! j)" by (cases j) simp_all
    qed
    with i have "Suc i < length (x # xs) \<and> (x # xs) ! Suc i = c \<and> month_like c \<and>
        (\<forall>j<Suc i. \<not> month_like ((x # xs) ! j))"
      by simp
    then show ?thesis by blast
  qed
qed


lemma rename_at:
  assumes "distinct cols" "i < length cols"
  shows "map (\<lambda>x. if x = cols ! i then new else x) cols = cols[i := new]"
proof (rule nth_equalityI)
  show "length (map (\<lambda>x. if x = cols ! i then new else x) cols) = length (cols[i := new])" by simp
next
  fix j assume "j < length (map (\<lambda>x. if x = cols ! i then new else x) cols)"
  then have j: "j < length cols" by simp
  with assms have "(cols ! j = cols ! i) = (j = i)"
    by (simp add: nth_eq_iff_index_eq)
  with j assms(2) show "map (\<lambda>x. if x = cols ! i then new else x) cols ! j = cols[i := new] ! j"
    by (simp add: nth_list_update)
qed

section \<open>Facts about the session\<close>

lemma run_script_stored:
  assumes "model sess = Some m"
  shows "session_after (run_script ext t sess) = sess"
    and "fit_calls (run_script ext t sess) = 0"
    and "result (run_script ext t sess) =
          (case load_series ext t of Inl e \<Rightarrow> Inl e | Inr data \<Rightarrow> assemble_forecast ext m data)"
  using assms by (simp_all add: run_script_def split: sum.splits)

lemma run_session_stored:
  "model sess = Some m \<Longrightarrow>
   \<forall>out\<in>set (run_session ext sess ts). session_after out = sess \<and> fit_calls out = 0"
proof (induction ts)
  case Nil
  show ?case by simp
next
  case (Cons t ts)
  with run_script_stored(1,2) [OF Cons.prems, of ext t] show ?case
    by (simp add: Let_def)
qed

lemma run_script_first_need:
  assumes "model sess = None" "load_series ext t = Inr data" "auto_arima ext data = Inr m"
  shows "run_script ext t sess =
           \<lparr>session_after = sess\<lparr>model := Some m\<rparr>, fit_calls = 1,
            result = assemble_forecast ext m data\<rparr>"
  using assms by (simp add: run_script_def)

lemma run_script_cases:
  "(session_after (run_script ext t sess) = sess \<and> fit_calls (run_script ext t sess) = 0) \<or>
   (model sess = None \<and> session_after (run_script ext t sess) = sess \<and>
      fit_calls (run_script ext t sess) = 1) \<or>
   (model sess = None \<and> (\<exists>m. session_after (run_script ext t sess) = sess\<lparr>model := Some m\<rparr>) \<and>
      fit_calls (run_script ext t sess) = 1)"
  by (auto simp: run_script_def split: sum.splits option.splits)

lemma total_fit_calls_stored:
  "model sess = Some m \<Longrightarrow> total_fit_calls (run_session ext sess ts) = 0"
  using run_session_stored [of sess m ext ts] by (simp add: total_fit_calls_def)

lemma total_fit_calls_bound:
  "total_fit_calls (run_session ext sess ts) \<le>
     1 + length (filter fit_failed (run_session ext sess ts))"
proof (induction ts arbitrary: sess)
  case Nil
  show ?case by (simp add: total_fit_calls_def)
next
  case (Cons t ts)
  let ?out = "run_script ext t sess"
  let ?rest = "run_session ext (session_after ?out) ts"
  have unfold: "run_session ext sess (t # ts) = ?out # ?rest"
    by (simp add: Let_def)
  have tot: "total_fit_calls (?out # ?rest) = fit_calls ?out + total_fit_calls ?rest"
    by (simp add: total_fit_calls_def)
  from run_script_cases [of ext t sess] show ?case
  proof (elim disjE conjE exE)
    assume "session_after ?out = sess" "fit_calls ?out = 0"
    with Cons.IH [of "session_after ?out"] show ?thesis
      unfolding unfold tot by simp
  next
    assume failed: "model sess = None" "session_after ?out = sess" "fit_calls ?out = 1"
    then have "fit_failed ?out" by (simp add: fit_failed_def)
    with failed Cons.IH [of "session_after ?out"] show ?thesis
      unfolding unfold tot by simp
  next
    fix m
    assume stored: "session_after ?out = sess\<lparr>model := Some m\<rparr>" "fit_calls ?out = 1"
    then have "model (session_after ?out) = Some m" by simp
    then have "total_fit_calls ?rest = 0" by (rule total_fit_calls_stored)
    with stored show ?thesis
      unfolding unfold tot by simp
  qed
qed

section \<open>Facts about the revenue column cleaner\<close>

lemma replace_currency_filter:
  "replace_currency s = filter (\<lambda>c. c \<noteq> CHR ''$'' \<and> c \<noteq> CHR '','') s"
  by (simp add: replace_currency_def remove_literal_def)

lemma py_float_unfold:
  "split_sign (remove_literal (CHR ''_'') (float_strip s)) = (neg, body) \<Longrightarrow>
   py_float rd s =
     (if \<not> underscores_ok (CHR 0x00) (float_strip s) then Inl NumericParseError
      else case absfloatvalue rd body of
             None \<Rightarrow> Inl NumericParseError
           | Some v \<Rightarrow> Inr (if neg then negate v else v))"
  by (simp add: py_float_def Let_def)

lemma py_float_error:
  assumes "py_float rd s = Inl e"
  shows "e = NumericParseError"
proof -
  obtain neg body where sp: "split_sign (remove_literal (CHR ''_'') (float_strip s)) = (neg, body)"
    by (cases "split_sign (remove_literal (CHR ''_'') (float_strip s))")
  show ?thesis
  proof (cases "absfloatvalue rd body")
    case None
    with assms show ?thesis
      unfolding py_float_unfold [OF sp] by (simp split: if_splits)
  next
    case (Some v)
    with assms show ?thesis
      unfolding py_float_unfold [OF sp] by (simp split: if_splits)
  qed
qed

lemma clean_cell_error: "clean_cell rd c = Inl e \<Longrightarrow> e = NumericParseError"
proof (cases c)
  case (Text s)
  assume "clean_cell rd c = Inl e"
  with Text have "py_float rd (replace_currency s) = Inl e" by (simp add: clean_cell_def)
  then show ?thesis by (rule py_float_error)
next
  case Missing
  assume "clean_cell rd c = Inl e"
  with Missing show ?thesis by (simp add: clean_cell_def)
qed

lemma clean_revenue_Inr:
  "clean_revenue rd cs = Inr vs \<Longrightarrow>
   length vs = length cs \<and> (\<forall>i<length cs. clean_cell rd (cs ! i) = Inr (vs ! i))"
proof (induction cs arbitrary: vs)
  case Nil
  then show ?case by simp
next
  case (Cons c cs)
  from Cons.prems obtain v ws where v: "clean_cell rd c = Inr v" and ws: "clean_revenue rd cs = Inr ws"
    and vs: "vs = v # ws"
    by (auto split: sum.splits)
  from Cons.IH [OF ws] v vs show ?case
    by (auto simp: nth_Cons split: nat.splits)
qed

lemma clean_revenue_Inl:
  "clean_revenue rd cs = Inl e \<Longrightarrow> \<exists>c\<in>set cs. clean_cell rd c = Inl e"
  by (induction cs) (auto split: sum.splits)

lemma clean_revenue_fails:
  "c \<in> set cs \<Longrightarrow> clean_cell rd c = Inl e \<Longrightarrow> clean_revenue rd cs = Inl NumericParseError"
proof (induction cs)
  case Nil
  then show ?case by simp
next
  case (Cons x xs)
  show ?case
  proof (cases "clean_cell rd x")
    case (Inl e')
    then show ?thesis by (simp add: clean_cell_error)
  next
    case (Inr v)
    with Cons have "clean_revenue rd xs = Inl NumericParseError" by auto
    with Inr show ?thesis by simp
  qed
qed

lemma ts_less_trans: "ts_less a b \<Longrightarrow> ts_less b c \<Longrightarrow> ts_less a c"
  unfolding ts_less_def by (elim disjE conjE) simp_all

lemma forecast_dates:
  assumes d: "month_end d"
  defines "idx \<equiv> month_ends (next_month_end d) 60"
  shows "length idx = 60" and "strictly_increasing idx"
    and "\<forall>x\<in>set idx. month_end x \<and> ts_less d x"
    and "no_month_gaps (d # idx)" and "hd idx = next_month_end d" and "distinct idx"
proof -
  from d have nx: "month_end (next_month_end d)" by (rule month_end_next)
  from d have mn: "month_number (next_month_end d) = month_number d + 1"
    by (simp add: month_end_def month_number_next)
  from month_ends_props [OF nx, of 60] have
    p1: "\<forall>x\<in>set idx. month_end x \<and> month_number (next_month_end d) \<le> month_number x"
    and p2: "no_month_gaps idx" by (simp_all add: idx_def)
  have e: "idx = next_month_end d # month_ends (next_month_end (next_month_end d)) 59"
    unfolding idx_def using month_ends_Suc [OF nx, of 59] by simp
  show "length idx = 60" by (simp add: idx_def)
  show later: "\<forall>x\<in>set idx. month_end x \<and> ts_less d x"
  proof
    fix x assume "x \<in> set idx"
    with p1 mn have "month_end x" "month_number d < month_number x" by auto
    with d show "month_end x \<and> ts_less d x" by (simp add: month_number_ts_less)
  qed
  have srt: "sorted_wrt (\<lambda>a b. month_number a < month_number b) idx"
    using p2 by (rule no_month_gaps_sorted)
  show "strictly_increasing idx"
    unfolding strictly_increasing_def
  proof (rule sorted_wrt_mono_rel [OF _ srt])
    fix a b
    assume "a \<in> set idx" "b \<in> set idx" "month_number a < month_number b"
    with p1 show "ts_less a b" by (blast intro: month_number_ts_less)
  qed
  show "no_month_gaps (d # idx)"
    using p2 mn unfolding e by simp
  show "hd idx = next_month_end d"
    unfolding e by simp
  from srt show "distinct idx" by (rule sorted_wrt_month_number_distinct)
qed

lemma assemble_forecast_unfold:
  "predict ext m n_periods = Inr forecast \<Longrightarrow> forecast_index data = Inr idx \<Longrightarrow>
   assemble_forecast ext m data = make_series forecast idx"
  by (simp add: assemble_forecast_def)

lemma make_series_Values:
  "make_series (Values vals) idx =
     (if length vals \<noteq> length idx then Inl LengthMismatchError else Inr (zip idx vals))"
  by (simp add: make_series_def)

lemma reindex_same_labels:
  assumes "map fst ps = map Stamp idx" "distinct idx"
  shows "reindex ps idx = zip idx (map snd ps)"
proof -
  from assms(1) have len: "length ps = length idx"
    by (metis length_map)
  from assms have dl: "distinct (map fst ps)"
    by (simp add: distinct_map inj_on_def)
  show ?thesis
  proof (rule nth_equalityI)
    show "length (reindex ps idx) = length (zip idx (map snd ps))"
      by (simp add: reindex_def len)
  next
    fix i assume "i < length (reindex ps idx)"
    then have i: "i < length idx" by (simp add: reindex_def)
    with assms(1) have "Stamp (idx ! i) = map fst ps ! i"
      by (metis nth_map)
    moreover from len i dl have "map_of (zip (map fst ps) (map snd ps)) (map fst ps ! i) = Some (map snd ps ! i)"
      by (intro map_of_zip_nth) simp_all
    ultimately have "map_of ps (Stamp (idx ! i)) = Some (map snd ps ! i)"
      by (simp add: zip_map_fst_snd)
    with i len show "reindex ps idx ! i = zip idx (map snd ps) ! i"
      by (simp add: reindex_def)
  qed
qed

lemma make_series_Labelled:
  assumes "distinct idx"
  shows "make_series (Labelled ps) idx =
     (if distinct (map fst ps) then Inr (reindex ps idx) else Inl ValueError)"
proof (cases "map fst ps = map Stamp idx")
  case True
  with assms have "distinct (map fst ps)" by (simp add: distinct_map inj_on_def)
  with True assms show ?thesis
    by (simp add: make_series_def reindex_same_labels)
next
  case False
  then show ?thesis by (simp add: make_series_def)
qed

lemma make_series_dates:
  assumes "make_series forecast idx = Inr fs"
  shows "map fst fs = idx"
proof (cases forecast)
  case (Values vals)
  with assms show ?thesis
    by (auto simp: make_series_def split: if_splits)
next
  case (Labelled ps)
  show ?thesis
  proof (cases "map fst ps = map Stamp idx")
    case True
    then have "length ps = length idx" by (metis length_map)
    with True Labelled assms show ?thesis
      by (auto simp: make_series_def)
  next
    case False
    with Labelled assms show ?thesis
      by (auto simp: make_series_def reindex_def comp_def split: if_splits)
  qed
qed

lemma reindex_no_dates:
  assumes "\<forall>l\<in>set (map fst ps). \<forall>x. l \<noteq> Stamp x"
  shows "reindex ps idx = map (\<lambda>x. (x, NaN)) idx"
proof -
  have "map_of ps (Stamp x) = None" for x
    using assms by (metis map_of_eq_None_iff set_map)
  then show ?thesis by (simp add: reindex_def)
qed

lemma run_script_failed_fit:
  assumes "model sess = None" "load_series ext t = Inr data" "auto_arima ext data = Inl e"
  shows "run_script ext t sess = \<lparr>session_after = sess, fit_calls = 1, result = Inl e\<rparr>"
  using assms by (simp add: run_script_def)


lemma failed_fits_counted:
  "length (filter fit_failed outs) \<le> total_fit_calls outs"
  by (induction outs) (auto simp: total_fit_calls_def fit_failed_def)

lemmas py_float_eval =
  clean_cell_def replace_currency_def remove_literal_def py_float_def float_strip_def
  float_isspace_def
  split_sign_def absfloatvalue_def lower_def lower_char_def upper_letters_def lower_letters_def floatnumber_def mantissa_ok_def
  mantissa_val_def exponent_val_def scale10_def digitpart_def is_digit_def digits_val_def

lemmas load_series_eval =
  load_series_def column_normalizer_def column_index_def column_cells_def
  clean_cell_def replace_currency_def remove_literal_def py_float_def float_strip_def
  float_isspace_def strip_def
  py_isspace_def split_sign_def absfloatvalue_def lower_def lower_char_def upper_letters_def
  lower_letters_def floatnumber_def mantissa_ok_def mantissa_val_def digitpart_def
  is_digit_def digits_val_def

lemmas regularize_eval =
  regularize_def align_month_end_def add_offset_def drop_duplicates_from_empty
  fill_revenue_def ffill_def ymd_def MonthEnd_def roll_convention_def shift_month_def
  days_in_month_def is_leapyear_def Let_def

section \<open>The gap-fill step and deduplication\<close>

text \<open>
  Claim C6. For every date-keyed series the gap-fill step keeps the keys and the length,
  replaces each missing revenue value by the most recent earlier value that is not
  missing, leaves a value that is not missing unchanged, and leaves a missing first value
  missing (there is no earlier value). The series [Jan = 100, Feb = missing, Mar = 150]
  becomes [Jan = 100, Feb = 100, Mar = 150].
\<close>

theorem gap_fill_forward_fill:
  "map fst (fill_revenue s) = map fst s \<and>
   length (fill_revenue s) = length s \<and>
   (\<forall>i<length s. snd (fill_revenue s ! i) =
      (if isna (snd (s ! i)) then last_valid (map snd (take i s)) else snd (s ! i))) \<and>
   (s \<noteq> [] \<and> isna (snd (hd s)) \<longrightarrow> isna (snd (hd (fill_revenue s)))) \<and>
   fill_revenue [(jan, Fin 100), (feb, NaN), (mar, Fin 150)] =
     [(jan, Fin 100), (feb, Fin 100), (mar, Fin 150)]"
proof (intro conjI allI impI)
  show "map fst (fill_revenue s) = map fst s"
    by (simp add: fill_revenue_def ffill_def)
  show "length (fill_revenue s) = length s"
    by (simp add: fill_revenue_def ffill_def)
  show "fill_revenue [(jan, Fin 100), (feb, NaN), (mar, Fin 150)] =
     [(jan, Fin 100), (feb, Fin 100), (mar, Fin 150)]"
    by (simp add: fill_revenue_def ffill_def)
next
  fix i assume i: "i < length s"
  then have "ffill_from NaN (map snd s) ! i =
      (if isna (map snd s ! i) then last_valid (take i (map snd s)) else map snd s ! i)"
    by (simp add: ffill_from_nth last_valid_def)
  with i show "snd (fill_revenue s ! i) =
      (if isna (snd (s ! i)) then last_valid (map snd (take i s)) else snd (s ! i))"
    by (simp add: fill_revenue_def ffill_def take_map)
next
  assume "s \<noteq> [] \<and> isna (snd (hd s))"
  then show "isna (snd (hd (fill_revenue s)))"
    by (cases s) (auto simp: fill_revenue_def ffill_def)
qed

theorem gap_fill_forward_fill_witness:
  "snd (fill_revenue [(Some (ymd 2020 1 31), Fin 100), (Some (ymd 2020 2 29), NaN),
                      (Some (ymd 2020 3 31), Fin 150)] ! 1) = Fin 100 \<and>
   fill_revenue [(Some (ymd 2020 1 31), Fin 100), (Some (ymd 2020 2 29), NaN),
                 (Some (ymd 2020 3 31), Fin 150)] =
     [(Some (ymd 2020 1 31), Fin 100), (Some (ymd 2020 2 29), Fin 100),
      (Some (ymd 2020 3 31), Fin 150)] \<and>
   isna (snd (hd (fill_revenue [(Some (ymd 2020 1 31), NaN), (Some (ymd 2020 2 29), Fin 7)])))"
  using gap_fill_forward_fill [of "[(Some (ymd 2020 1 31), Fin 100), (Some (ymd 2020 2 29), NaN),
                      (Some (ymd 2020 3 31), Fin 150)]" "Some (ymd 2020 1 31)" "Some (ymd 2020 2 29)"
                      "Some (ymd 2020 3 31)"]
    gap_fill_forward_fill [of "[(Some (ymd 2020 1 31), NaN), (Some (ymd 2020 2 29), Fin 7)]"]
  by (simp add: last_valid_def)



section \<open>The regularized series\<close>

text \<open>
  Claim C1, as amended. For every input series the index of the regularized series has
  pairwise distinct entries, each entry other than NaT is the last day of a month, the
  entries stand in the order of the input (nothing is sorted and no month is added), and
  the revenue column has missing values only before its first value that is not missing.
  The regularized series satisfies the whole invariant (strictly increasing dates, one
  entry for every month from the first to the last, no missing value) exactly when the
  input has no NaT, its first revenue value is present, and the aligned dates, each taken
  where it first occurs, fall in consecutive months. This is so for every input whose
  dates are valid and stand in chronological month order, a month having one row or
  several at one time of day (rows dated 1 January, 15 January and 1 February, say), and
  so for every input with one row for each month in order.
\<close>

theorem regularizer_output_invariant:
  "distinct (map fst (regularize s)) \<and>
   (\<forall>d. Some d \<in> set (map fst (regularize s)) \<longrightarrow> month_end d) \<and>
   subseq (map fst (regularize s)) (map fst (align_month_end s)) \<and>
   missing_only_leading (map snd (regularize s)) \<and>
   canonical_series (regularize s) =
     (list_all (\<lambda>k. k \<noteq> None) (map fst s) \<and>
      no_month_gaps (map the (map fst (drop_duplicates (align_month_end s)))) \<and>
      (s \<noteq> [] \<longrightarrow> \<not> isna (snd (hd s)))) \<and>
   (months_in_order s \<longrightarrow> canonical_series (regularize s)) \<and>
   (monthly_in_order s \<longrightarrow> months_in_order s) \<and>
   (monthly_in_order s \<longrightarrow> canonical_series (regularize s))"
  using regularize_distinct [of s] regularize_month_end [of _ s] regularize_subseq [of s]
    regularize_missing_only_leading [of s] regularize_canonical_iff [of s]
    regularize_months_in_order [of s] monthly_is_months_in_order [of s]
    regularize_monthly_in_order [of s]
  by blast

theorem regularizer_output_invariant_witness:
  "monthly_in_order
     [(Some (ymd 1972 1 1), Fin 100), (Some (ymd 1972 2 1), NaN), (Some (ymd 1972 3 1), Fin 150)] \<and>
   months_in_order
     [(Some (ymd 1972 1 1), Fin 100), (Some (ymd 1972 2 1), NaN), (Some (ymd 1972 3 1), Fin 150)] \<and>
   canonical_series (regularize
     [(Some (ymd 1972 1 1), Fin 100), (Some (ymd 1972 2 1), NaN), (Some (ymd 1972 3 1), Fin 150)]) \<and>
   regularize
     [(Some (ymd 1972 1 1), Fin 100), (Some (ymd 1972 2 1), NaN), (Some (ymd 1972 3 1), Fin 150)] =
     [(Some (ymd 1971 12 31), Fin 100), (Some (ymd 1972 1 31), Fin 100),
      (Some (ymd 1972 2 29), Fin 150)] \<and>
   month_end (ymd 1972 2 29) \<and>
   \<not> monthly_in_order
     [(Some (ymd 1972 1 1), Fin 100), (Some (ymd 1972 1 15), Fin 120), (Some (ymd 1972 2 1), NaN)] \<and>
   months_in_order
     [(Some (ymd 1972 1 1), Fin 100), (Some (ymd 1972 1 15), Fin 120), (Some (ymd 1972 2 1), NaN)] \<and>
   canonical_series (regularize
     [(Some (ymd 1972 1 1), Fin 100), (Some (ymd 1972 1 15), Fin 120), (Some (ymd 1972 2 1), NaN)]) \<and>
   regularize
     [(Some (ymd 1972 1 1), Fin 100), (Some (ymd 1972 1 15), Fin 120), (Some (ymd 1972 2 1), NaN)] =
     [(Some (ymd 1971 12 31), Fin 100), (Some (ymd 1972 1 31), Fin 100)] \<and>
   no_month_gaps (map the (map fst (drop_duplicates (align_month_end
     [(Some (ymd 1972 1 1), Fin 100), (Some (ymd 1972 1 15), Fin 120),
      (Some (ymd 1972 2 1), NaN)]))))"
proof -
  let ?ex = "[(Some (ymd 1972 1 1), Fin 100), (Some (ymd 1972 2 1), NaN),
              (Some (ymd 1972 3 1), Fin 150)]"
  let ?ex2 = "[(Some (ymd 1972 1 1), Fin 100), (Some (ymd 1972 1 15), Fin 120),
               (Some (ymd 1972 2 1), NaN)]"
  have h: "monthly_in_order ?ex"
    by (simp add: monthly_in_order_def valid_date_def no_month_gaps_def month_number_def
        ymd_def days_in_month_def is_leapyear_def)
  have r: "regularize ?ex =
     [(Some (ymd 1971 12 31), Fin 100), (Some (ymd 1972 1 31), Fin 100),
      (Some (ymd 1972 2 29), Fin 150)]"
    by (simp add: regularize_eval)
  from regularizer_output_invariant [of ?ex] h
  have c: "months_in_order ?ex" "canonical_series (regularize ?ex)" by blast+
  have "Some (ymd 1972 2 29) \<in> set (map fst (regularize ?ex))"
    by (simp add: r)
  with regularizer_output_invariant [of ?ex]
  have m: "month_end (ymd 1972 2 29)" by blast
  have n2: "\<not> monthly_in_order ?ex2"
    by (simp add: monthly_in_order_def no_month_gaps_def month_number_def ymd_def)
  have h2: "months_in_order ?ex2"
    by (simp add: months_in_order_def same_or_next_month_def valid_date_def month_number_def
        ymd_def days_in_month_def is_leapyear_def)
  have r2: "regularize ?ex2 = [(Some (ymd 1971 12 31), Fin 100), (Some (ymd 1972 1 31), Fin 100)]"
    by (simp add: regularize_eval)
  from regularizer_output_invariant [of ?ex2] h2
  have c2: "canonical_series (regularize ?ex2)" by blast
  with regularizer_output_invariant [of ?ex2]
  have g2: "no_month_gaps (map the (map fst (drop_duplicates (align_month_end ?ex2))))"
    by blast
  from h c r m n2 h2 c2 r2 g2 show ?thesis by blast
qed

text \<open>
  The claim as stated fails on an input that is out of order, skips a month and starts
  with a missing value: the regularized series is not increasing, has a gap and keeps the
  missing value.
\<close>

theorem regularizer_output_counterexample:
  "\<not> canonical_series (regularize
       [(Some (ymd 1972 1 1), NaN), (Some (ymd 1972 4 1), Fin 1), (Some (ymd 1972 3 1), Fin 2)]) \<and>
   \<not> strictly_increasing (map the (map fst (regularize
       [(Some (ymd 1972 1 1), NaN), (Some (ymd 1972 4 1), Fin 1), (Some (ymd 1972 3 1), Fin 2)]))) \<and>
   \<not> no_month_gaps (map the (map fst (regularize
       [(Some (ymd 1972 1 1), NaN), (Some (ymd 1972 4 1), Fin 1), (Some (ymd 1972 3 1), Fin 2)]))) \<and>
   \<not> no_missing (map snd (regularize
       [(Some (ymd 1972 1 1), NaN), (Some (ymd 1972 4 1), Fin 1), (Some (ymd 1972 3 1), Fin 2)]))"
proof -
  have r: "regularize
       [(Some (ymd 1972 1 1), NaN), (Some (ymd 1972 4 1), Fin 1), (Some (ymd 1972 3 1), Fin 2)] =
     [(Some (ymd 1971 12 31), NaN), (Some (ymd 1972 3 31), Fin 1), (Some (ymd 1972 2 29), Fin 2)]"
    by (simp add: regularize_eval)
  show ?thesis
    unfolding r
    by (simp add: canonical_series_def strictly_increasing_def no_month_gaps_def no_missing_def
        ts_less_def month_number_def ymd_def)
qed

text \<open>
  Claim C2, as amended. The regularizer is not idempotent. A second application changes
  nothing but the dates, and moves every date one more month back:
  deduplication and forward fill leave a regularized series as it is, while month-end
  alignment has no fixed point at all (it takes a month-end date to the end of the month
  before), so any series with a date other than NaT is changed by the second application.
\<close>

theorem regularizer_second_pass:
  "regularize (regularize s) = align_month_end (regularize s) \<and>
   drop_duplicates (regularize s) = regularize s \<and>
   fill_revenue (regularize s) = regularize s \<and>
   MonthEnd (- 1) d \<noteq> d \<and>
   (month_end d \<longrightarrow> MonthEnd (- 1) d = previous_month_end d) \<and>
   (Some a \<in> set (map fst s) \<longrightarrow> regularize (regularize s) \<noteq> regularize s)"
proof (intro conjI impI)
  show "regularize (regularize s) = align_month_end (regularize s)"
    by (rule regularize_twice)
  show "drop_duplicates (regularize s) = regularize s"
    using regularize_distinct [of s] by (simp add: drop_duplicates_from_empty ddf_id)
  show "fill_revenue (regularize s) = regularize s"
    by (rule fill_revenue_fixed) (rule regularize_vals)
  show "MonthEnd (- 1) d \<noteq> d"
    by (rule MonthEnd_back_moves)
  show "MonthEnd (- 1) d = previous_month_end d" if "month_end d"
    using that by (rule MonthEnd_back)
  show "regularize (regularize s) \<noteq> regularize s" if "Some a \<in> set (map fst s)"
    using that by (rule regularize_moves)
qed

theorem regularizer_second_pass_witness:
  "Some (ymd 2020 2 15) \<in> set (map fst [(Some (ymd 2020 2 15), Fin 5)]) \<and>
   regularize [(Some (ymd 2020 2 15), Fin 5)] = [(Some (ymd 2020 1 31), Fin 5)] \<and>
   regularize (regularize [(Some (ymd 2020 2 15), Fin 5)]) = [(Some (ymd 2019 12 31), Fin 5)] \<and>
   regularize (regularize [(Some (ymd 2020 2 15), Fin 5)]) \<noteq> regularize [(Some (ymd 2020 2 15), Fin 5)] \<and>
   month_end (ymd 2020 1 31) \<and>
   MonthEnd (- 1) (ymd 2020 1 31) = previous_month_end (ymd 2020 1 31)"
proof -
  let ?ex = "[(Some (ymd 2020 2 15), Fin 5)]"
  have k: "Some (ymd 2020 2 15) \<in> set (map fst ?ex)" by simp
  have m: "month_end (ymd 2020 1 31)"
    by (simp add: month_end_def ymd_def days_in_month_def)
  have r1: "regularize ?ex = [(Some (ymd 2020 1 31), Fin 5)]"
    by (simp add: regularize_eval)
  have r2: "regularize (regularize ?ex) = [(Some (ymd 2019 12 31), Fin 5)]"
    unfolding r1 by (simp add: regularize_eval)
  from regularizer_second_pass [of ?ex "ymd 2020 1 31" "ymd 2020 2 15"] k m
  have "regularize (regularize ?ex) \<noteq> regularize ?ex"
    and "MonthEnd (- 1) (ymd 2020 1 31) = previous_month_end (ymd 2020 1 31)"
    by blast+
  with k m r1 r2 show ?thesis by blast
qed

text \<open>
  The claim as stated fails on a single row dated 2020-01-31: one application dates it
  2019-12-31, the second 2019-11-30.
\<close>

theorem regularizer_idempotent_counterexample:
  "regularize (regularize [(Some (ymd 2020 1 31), Fin 100)]) \<noteq>
   regularize [(Some (ymd 2020 1 31), Fin 100)]"
  by (simp add: regularize_eval)

text \<open>
  Claim C10. Alignment comes before deduplication, so two rows whose dates, equal or not,
  are taken to the same month end by the alignment collapse into one entry. After lines
  47 and 48 (alignment, then deduplication) there is exactly one entry with that date, the
  later row leaves no trace (the result is the same as without it), and the entry has the
  revenue value of the first row of the input with that aligned date, missing or not. The
  same holds of the regularized series, where the forward fill of line 49 replaces the
  value of that first row, when it is missing, by the last value present before it.
\<close>

theorem alignment_then_deduplication:
  assumes "i < j" and "j < length s"
    and "add_offset (- 1) (fst (s ! i)) = add_offset (- 1) (fst (s ! j))"
  shows "length (filter (\<lambda>r. fst r = add_offset (- 1) (fst (s ! j)))
           (drop_duplicates (align_month_end s))) = 1 \<and>
         length (filter (\<lambda>r. fst r = add_offset (- 1) (fst (s ! j))) (regularize s)) = 1 \<and>
         drop_duplicates (align_month_end (take j s @ drop (Suc j) s)) =
           drop_duplicates (align_month_end s) \<and>
         regularize (take j s @ drop (Suc j) s) = regularize s \<and>
         (\<exists>f\<le>i. add_offset (- 1) (fst (s ! f)) = add_offset (- 1) (fst (s ! i)) \<and>
            (\<forall>i'<f. add_offset (- 1) (fst (s ! i')) \<noteq> add_offset (- 1) (fst (s ! i))) \<and>
            map_of (drop_duplicates (align_month_end s)) (add_offset (- 1) (fst (s ! i))) =
              Some (snd (s ! f)) \<and>
            map_of (regularize s) (add_offset (- 1) (fst (s ! i))) =
              Some (if isna (snd (s ! f))
                    then last_valid (map snd
                           (takeWhile (\<lambda>r. fst r \<noteq> add_offset (- 1) (fst (s ! i)))
                              (drop_duplicates (align_month_end s))))
                    else snd (s ! f))) \<and>
         ((\<forall>i'<i. add_offset (- 1) (fst (s ! i')) \<noteq> add_offset (- 1) (fst (s ! i))) \<longrightarrow>
            map_of (drop_duplicates (align_month_end s)) (add_offset (- 1) (fst (s ! i))) =
              Some (snd (s ! i))) \<and>
         ((\<forall>i'<i. add_offset (- 1) (fst (s ! i')) \<noteq> add_offset (- 1) (fst (s ! i))) \<and>
           \<not> isna (snd (s ! i)) \<longrightarrow>
          map_of (regularize s) (add_offset (- 1) (fst (s ! i))) = Some (snd (s ! i)))"
proof -
  let ?k = "add_offset (- 1) (fst (s ! i))"
  let ?dd = "drop_duplicates (align_month_end s)"
  from assms(2) have "fst (s ! j) \<in> set (map fst s)" by simp
  then have kin: "add_offset (- 1) (fst (s ! j)) \<in> set (map fst (regularize s))"
    unfolding regularize_key_set by (rule imageI)
  then have kin': "add_offset (- 1) (fst (s ! j)) \<in> set (map fst ?dd)"
    by (simp only: regularize_keys)
  have A: "length (filter (\<lambda>r. fst r = add_offset (- 1) (fst (s ! j))) ?dd) = 1"
    by (rule count_distinct_key [OF _ kin'])
      (simp add: drop_duplicates_from_empty ddf_distinct)
  from regularize_distinct [of s] kin
  have B: "length (filter (\<lambda>r. fst r = add_offset (- 1) (fst (s ! j))) (regularize s)) = 1"
    by (rule count_distinct_key)
  from assms have C: "drop_duplicates (align_month_end (take j s @ drop (Suc j) s)) = ?dd"
    by (rule dedup_remove_later)
  from assms have D: "regularize (take j s @ drop (Suc j) s) = regularize s"
    by (rule regularize_remove_later)
  have firstrow: "map_of (align_month_end s) ?k = Some (snd (s ! f))"
    if f: "f \<le> i" "add_offset (- 1) (fst (s ! f)) = ?k"
      "\<forall>i'<f. add_offset (- 1) (fst (s ! i')) \<noteq> ?k" for f
  proof -
    from f(1) assms have fl: "f < length (align_month_end s)" by simp
    moreover from fl f(2) have "fst (align_month_end s ! f) = ?k"
      by (simp add: align_nth)
    moreover from fl f(3) have "\<forall>i'<f. fst (align_month_end s ! i') \<noteq> ?k"
      by (simp add: align_nth)
    ultimately have "map_of (align_month_end s) ?k = Some (snd (align_month_end s ! f))"
      by (rule map_of_first)
    with fl show ?thesis by (simp add: align_nth)
  qed
  from first_occurrence [of "\<lambda>n. add_offset (- 1) (fst (s ! n)) = ?k" i]
  obtain f where f: "f \<le> i" "add_offset (- 1) (fst (s ! f)) = ?k"
    "\<forall>i'<f. add_offset (- 1) (fst (s ! i')) \<noteq> ?k"
    by blast
  from regularize_lookup [OF firstrow [OF f]] f
  have E: "\<exists>f\<le>i. add_offset (- 1) (fst (s ! f)) = ?k \<and>
            (\<forall>i'<f. add_offset (- 1) (fst (s ! i')) \<noteq> ?k) \<and>
            map_of ?dd ?k = Some (snd (s ! f)) \<and>
            map_of (regularize s) ?k =
              Some (if isna (snd (s ! f))
                    then last_valid (map snd (takeWhile (\<lambda>r. fst r \<noteq> ?k) ?dd))
                    else snd (s ! f))"
    by blast
  have F: "(\<forall>i'<i. add_offset (- 1) (fst (s ! i')) \<noteq> ?k) \<longrightarrow>
            map_of ?dd ?k = Some (snd (s ! i))"
  proof
    assume "\<forall>i'<i. add_offset (- 1) (fst (s ! i')) \<noteq> ?k"
    then have "map_of (align_month_end s) ?k = Some (snd (s ! i))"
      by (intro firstrow) simp_all
    then show "map_of ?dd ?k = Some (snd (s ! i))"
      by (rule regularize_lookup)
  qed
  have G: "(\<forall>i'<i. add_offset (- 1) (fst (s ! i')) \<noteq> ?k) \<and> \<not> isna (snd (s ! i)) \<longrightarrow>
          map_of (regularize s) ?k = Some (snd (s ! i))"
  proof
    assume h: "(\<forall>i'<i. add_offset (- 1) (fst (s ! i')) \<noteq> ?k) \<and> \<not> isna (snd (s ! i))"
    then have "map_of (align_month_end s) ?k = Some (snd (s ! i))"
      by (intro firstrow) simp_all
    with h show "map_of (regularize s) ?k = Some (snd (s ! i))"
      by (simp add: regularize_map_of)
  qed
  from A B C D E F G show ?thesis by blast
qed

theorem alignment_then_deduplication_witness:
  "fst ([(Some (ymd 2020 2 10), NaN), (Some (ymd 2020 2 20), Fin 200)] ! 0) \<noteq>
   fst ([(Some (ymd 2020 2 10), NaN), (Some (ymd 2020 2 20), Fin 200)] ! 1) \<and>
   add_offset (- 1) (Some (ymd 2020 2 10)) = add_offset (- 1) (Some (ymd 2020 2 20)) \<and>
   drop_duplicates (align_month_end [(Some (ymd 2020 2 10), NaN), (Some (ymd 2020 2 20), Fin 200)]) =
     [(Some (ymd 2020 1 31), NaN)] \<and>
   drop_duplicates (align_month_end [(Some (ymd 2020 2 10), NaN)]) =
     drop_duplicates (align_month_end [(Some (ymd 2020 2 10), NaN), (Some (ymd 2020 2 20), Fin 200)]) \<and>
   map_of (drop_duplicates (align_month_end
       [(Some (ymd 2020 2 10), NaN), (Some (ymd 2020 2 20), Fin 200)]))
     (add_offset (- 1) (Some (ymd 2020 2 10))) = Some NaN \<and>
   regularize [(Some (ymd 2020 2 10), Fin 100), (Some (ymd 2020 2 20), Fin 200)] =
     [(Some (ymd 2020 1 31), Fin 100)] \<and>
   map_of (regularize [(Some (ymd 2020 2 10), Fin 100), (Some (ymd 2020 2 20), Fin 200)])
     (add_offset (- 1) (Some (ymd 2020 2 10))) = Some (Fin 100)"
proof -
  let ?ex = "[(Some (ymd 2020 2 10), NaN), (Some (ymd 2020 2 20), Fin 200)]"
  let ?ex2 = "[(Some (ymd 2020 2 10), Fin 100), (Some (ymd 2020 2 20), Fin 200)]"
  have a: "(0::nat) < 1" "1 < length ?ex" "1 < length ?ex2" by simp_all
  have b: "add_offset (- 1) (fst (?ex ! 0)) = add_offset (- 1) (fst (?ex ! 1))"
    and b2: "add_offset (- 1) (fst (?ex2 ! 0)) = add_offset (- 1) (fst (?ex2 ! 1))"
    by (simp_all add: regularize_eval)
  have c: "fst (?ex ! 0) \<noteq> fst (?ex ! 1)" by (simp add: ymd_def)
  have r: "drop_duplicates (align_month_end ?ex) = [(Some (ymd 2020 1 31), NaN)]"
    by (simp add: regularize_eval)
  have r2: "regularize ?ex2 = [(Some (ymd 2020 1 31), Fin 100)]"
    by (simp add: regularize_eval)
  from alignment_then_deduplication [OF a(1,2) b]
  have "drop_duplicates (align_month_end (take 1 ?ex @ drop (Suc 1) ?ex)) =
          drop_duplicates (align_month_end ?ex)"
    and "map_of (drop_duplicates (align_month_end ?ex)) (add_offset (- 1) (fst (?ex ! 0))) =
          Some (snd (?ex ! 0))"
    by simp_all
  then have d: "drop_duplicates (align_month_end [(Some (ymd 2020 2 10), NaN)]) =
          drop_duplicates (align_month_end ?ex)"
    and e: "map_of (drop_duplicates (align_month_end ?ex))
          (add_offset (- 1) (Some (ymd 2020 2 10))) = Some NaN"
    by simp_all
  from alignment_then_deduplication [OF a(1,3) b2]
  have "map_of (regularize ?ex2) (add_offset (- 1) (fst (?ex2 ! 0))) = Some (snd (?ex2 ! 0))"
    by simp
  then have f: "map_of (regularize ?ex2) (add_offset (- 1) (Some (ymd 2020 2 10))) = Some (Fin 100)"
    by simp
  from b c r d e r2 f show ?thesis by simp
qed

section \<open>The forecast series\<close>

text \<open>
  Claim C3, as amended. For every regularized series whose last row has a date, and the
  horizon 60: the forecast index is 60 strictly increasing month ends, one for each of
  the 60 months after the month of the last row, all after the date of the last row, the
  first being the end of the next month; they are after every historical date when the
  last row holds the latest one. Every forecast series the assembly returns has exactly
  these dates. When \<open>predict\<close> returns an array, its values are paired with the dates
  by position, and the assembly fails with \<open>LengthMismatchError\<close> unless there are
  60 of them. When \<open>predict\<close> returns a labelled series, each date takes the value
  predicted under that date, missing when there is none, whatever the number of values;
  this is the pairing by position when the labels are the 60 dates, and the assembly
  fails only when the labels are not unique.
\<close>

theorem forecast_assembler:
  assumes "data = regularize raw" and "data \<noteq> []" and "fst (last data) = Some d"
    and "predict ext m n_periods = Inr forecast"
  shows "\<exists>idx. forecast_index data = Inr idx \<and>
           length idx = 60 \<and>
           strictly_increasing idx \<and>
           (\<forall>x\<in>set idx. month_end x \<and> ts_less d x) \<and>
           no_month_gaps (d # idx) \<and>
           hd idx = next_month_end d \<and>
           ((\<forall>h. Some h \<in> set (map fst data) \<longrightarrow> h = d \<or> ts_less h d) \<longrightarrow>
              (\<forall>x\<in>set idx. \<forall>h. Some h \<in> set (map fst data) \<longrightarrow> ts_less h x)) \<and>
           (\<forall>fs. assemble_forecast ext m data = Inr fs \<longrightarrow> map fst fs = idx) \<and>
           (\<forall>vals. forecast = Values vals \<and> length vals = 60 \<longrightarrow>
              assemble_forecast ext m data = Inr (zip idx vals)) \<and>
           (\<forall>vals. forecast = Values vals \<and> length vals \<noteq> 60 \<longrightarrow>
              assemble_forecast ext m data = Inl LengthMismatchError) \<and>
           (\<forall>ps. forecast = Labelled ps \<and> distinct (map fst ps) \<longrightarrow>
              assemble_forecast ext m data =
                Inr (map (\<lambda>x. (x, case map_of ps (Stamp x) of Some v \<Rightarrow> v | None \<Rightarrow> NaN)) idx)) \<and>
           (\<forall>ps. forecast = Labelled ps \<and> map fst ps = map Stamp idx \<longrightarrow>
              assemble_forecast ext m data = Inr (zip idx (map snd ps))) \<and>
           (\<forall>ps. forecast = Labelled ps \<and> \<not> distinct (map fst ps) \<longrightarrow>
              assemble_forecast ext m data = Inl ValueError)"
proof -
  let ?idx = "month_ends (next_month_end d) 60"
  from assms(2,3) have "Some d \<in> set (map fst data)"
    by (metis last_in_set last_map map_is_Nil_conv)
  with assms(1) have d: "month_end d"
    by (simp only: regularize_month_end)
  from assms(2,3) d have idx: "forecast_index data = Inr ?idx"
    by (rule forecast_index_regular)
  note ms = assemble_forecast_unfold [OF assms(4) idx]
  note fd = forecast_dates [OF d]
  have A: "(\<forall>h. Some h \<in> set (map fst data) \<longrightarrow> h = d \<or> ts_less h d) \<longrightarrow>
              (\<forall>x\<in>set ?idx. \<forall>h. Some h \<in> set (map fst data) \<longrightarrow> ts_less h x)"
  proof (intro impI ballI allI)
    fix x h
    assume all: "\<forall>h. Some h \<in> set (map fst data) \<longrightarrow> h = d \<or> ts_less h d"
      and x: "x \<in> set ?idx" and h: "Some h \<in> set (map fst data)"
    from fd(3) x have dx: "ts_less d x" by blast
    from all h have "h = d \<or> ts_less h d" by blast
    with dx show "ts_less h x" by (auto intro: ts_less_trans)
  qed
  have B: "\<forall>fs. assemble_forecast ext m data = Inr fs \<longrightarrow> map fst fs = ?idx"
    unfolding ms by (blast dest: make_series_dates)
  have C: "\<forall>vals. forecast = Values vals \<and> length vals = 60 \<longrightarrow>
              assemble_forecast ext m data = Inr (zip ?idx vals)"
    unfolding ms by (simp add: make_series_Values)
  have D: "\<forall>vals. forecast = Values vals \<and> length vals \<noteq> 60 \<longrightarrow>
              assemble_forecast ext m data = Inl LengthMismatchError"
    unfolding ms by (simp add: make_series_Values)
  have E: "\<forall>ps. forecast = Labelled ps \<and> distinct (map fst ps) \<longrightarrow>
              assemble_forecast ext m data =
                Inr (map (\<lambda>x. (x, case map_of ps (Stamp x) of Some v \<Rightarrow> v | None \<Rightarrow> NaN)) ?idx)"
    unfolding ms by (simp add: make_series_Labelled [OF fd(6)] reindex_def)
  have F: "\<forall>ps. forecast = Labelled ps \<and> map fst ps = map Stamp ?idx \<longrightarrow>
              assemble_forecast ext m data = Inr (zip ?idx (map snd ps))"
    unfolding ms by (simp add: make_series_def)
  have G: "\<forall>ps. forecast = Labelled ps \<and> \<not> distinct (map fst ps) \<longrightarrow>
              assemble_forecast ext m data = Inl ValueError"
    unfolding ms by (simp add: make_series_Labelled [OF fd(6)])
  from idx fd(1,2,3,4,5) A B C D E F G show ?thesis
    by blast
qed

theorem forecast_assembler_witness:
  "regularize [(Some (ymd 1972 1 1), Fin 7)] = [(Some (ymd 1971 12 31), Fin 7)] \<and>
   (\<exists>fs. assemble_forecast
           \<lparr>to_datetime = (\<lambda>cs. Inl DateParseError), nearest_double = Fin,
            auto_arima = (\<lambda>s. Inr ()),
            predict = (\<lambda>m n. Inr (Values (replicate n (Fin 1))))\<rparr> ()
           (regularize [(Some (ymd 1972 1 1), Fin 7)]) = Inr fs \<and>
         length fs = 60 \<and> fst (hd fs) = ymd 1972 1 31 \<and> map snd fs = replicate 60 (Fin 1)) \<and>
   assemble_forecast
     \<lparr>to_datetime = (\<lambda>cs. Inl DateParseError), nearest_double = Fin,
      auto_arima = (\<lambda>s. Inr ()),
      predict = (\<lambda>m n. Inr (Values (replicate 59 (Fin 1))))\<rparr> ()
     (regularize [(Some (ymd 1972 1 1), Fin 7)]) = Inl LengthMismatchError"
proof -
  let ?raw = "[(Some (ymd 1972 1 1), Fin 7)]"
  let ?ext = "\<lparr>to_datetime = (\<lambda>cs. Inl DateParseError), nearest_double = Fin,
            auto_arima = (\<lambda>s. Inr ()),
            predict = (\<lambda>m n. Inr (Values (replicate n (Fin 1))))\<rparr> :: unit externals"
  let ?short = "\<lparr>to_datetime = (\<lambda>cs. Inl DateParseError), nearest_double = Fin,
            auto_arima = (\<lambda>s. Inr ()),
            predict = (\<lambda>m n. Inr (Values (replicate 59 (Fin 1))))\<rparr> :: unit externals"
  have r: "regularize ?raw = [(Some (ymd 1971 12 31), Fin 7)]"
    by (simp add: regularize_eval)
  have h1: "regularize ?raw \<noteq> []" and h2: "fst (last (regularize ?raw)) = Some (ymd 1971 12 31)"
    by (simp_all add: r)
  have p: "predict ?ext () n_periods = Inr (Values (replicate 60 (Fin 1)))"
    by (simp add: n_periods_def)
  have q: "predict ?short () n_periods = Inr (Values (replicate 59 (Fin 1)))"
    by simp
  have n: "next_month_end (ymd 1971 12 31) = ymd 1972 1 31"
    by (simp add: next_month_end_def ymd_def days_in_month_def)
  from forecast_assembler [OF refl h1 h2 p] obtain idx where
    i: "length idx = 60" "hd idx = next_month_end (ymd 1971 12 31)"
      "assemble_forecast ?ext () (regularize ?raw) = Inr (zip idx (replicate 60 (Fin 1)))"
    by auto
  from i(1) have "idx \<noteq> []" by auto
  with i(1,2) have "fst (hd (zip idx (replicate 60 (Fin 1)))) = ymd 1972 1 31"
    unfolding n by (cases idx) (simp_all add: numeral_eq_Suc)
  moreover from i(1) have "length (zip idx (replicate 60 (Fin 1))) = 60"
    "map snd (zip idx (replicate 60 (Fin 1))) = replicate 60 (Fin 1)"
    by simp_all
  ultimately have "\<exists>fs. assemble_forecast ?ext () (regularize ?raw) = Inr fs \<and>
         length fs = 60 \<and> fst (hd fs) = ymd 1972 1 31 \<and> map snd fs = replicate 60 (Fin 1)"
    using i(3) by blast
  moreover from forecast_assembler [OF refl h1 h2 q]
  have "assemble_forecast ?short () (regularize ?raw) = Inl LengthMismatchError"
    by auto
  ultimately show ?thesis using r by blast
qed

text \<open>
  The claim as stated fails in two ways. On a series out of order, with rows dated
  1972-06-01 and then 1972-03-01, the first forecast date is 1972-03-31, before the
  historical date 1972-05-31. And when \<open>predict\<close> returns 59 values labelled by
  position, no error is raised and none of the values is paired: the forecast series has
  60 dates, each with a missing value.
\<close>

theorem forecast_assembler_counterexample:
  "(\<exists>fs. assemble_forecast
           \<lparr>to_datetime = (\<lambda>cs. Inl DateParseError), nearest_double = Fin,
            auto_arima = (\<lambda>s. Inr ()),
            predict = (\<lambda>m n. Inr (Values (replicate n (Fin 1))))\<rparr> ()
           (regularize [(Some (ymd 1972 6 1), Fin 1), (Some (ymd 1972 3 1), Fin 2)]) = Inr fs \<and>
         fst (hd fs) = ymd 1972 3 31) \<and>
   Some (ymd 1972 5 31) \<in>
     set (map fst (regularize [(Some (ymd 1972 6 1), Fin 1), (Some (ymd 1972 3 1), Fin 2)])) \<and>
   \<not> ts_less (ymd 1972 5 31) (ymd 1972 3 31) \<and>
   (\<exists>fs. assemble_forecast
           \<lparr>to_datetime = (\<lambda>cs. Inl DateParseError), nearest_double = Fin,
            auto_arima = (\<lambda>s. Inr ()),
            predict = (\<lambda>m n. Inr (Labelled (map (\<lambda>i. (Position (int i), Fin 1)) [2..<61])))\<rparr> ()
           (regularize [(Some (ymd 1972 6 1), Fin 1), (Some (ymd 1972 3 1), Fin 2)]) = Inr fs \<and>
         length fs = 60 \<and> map snd fs = replicate 60 NaN)"
proof -
  let ?raw = "[(Some (ymd 1972 6 1), Fin 1), (Some (ymd 1972 3 1), Fin 2)]"
  let ?ext = "\<lparr>to_datetime = (\<lambda>cs. Inl DateParseError), nearest_double = Fin,
            auto_arima = (\<lambda>s. Inr ()),
            predict = (\<lambda>m n. Inr (Values (replicate n (Fin 1))))\<rparr> :: unit externals"
  let ?lab = "\<lparr>to_datetime = (\<lambda>cs. Inl DateParseError), nearest_double = Fin,
            auto_arima = (\<lambda>s. Inr ()),
            predict = (\<lambda>m n. Inr (Labelled (map (\<lambda>i. (Position (int i), Fin 1)) [2..<61])))\<rparr>
            :: unit externals"
  let ?d = "ymd 1972 2 29"
  let ?idx = "month_ends (next_month_end ?d) 60"
  let ?ps = "map (\<lambda>i. (Position (int i), Fin 1)) [2..<61]"
  have r: "regularize ?raw = [(Some (ymd 1972 5 31), Fin 1), (Some ?d, Fin 2)]"
    by (simp add: regularize_eval)
  have d: "month_end ?d"
    by (simp add: month_end_def ymd_def days_in_month_def is_leapyear_def)
  have n: "next_month_end ?d = ymd 1972 3 31"
    by (simp add: next_month_end_def ymd_def days_in_month_def)
  have idx: "forecast_index (regularize ?raw) = Inr ?idx"
    by (rule forecast_index_regular [OF _ _ d]) (simp_all add: r)
  note fd = forecast_dates [OF d]
  have p: "predict ?ext () n_periods = Inr (Values (replicate 60 (Fin 1)))"
    by (simp add: n_periods_def)
  have a1: "assemble_forecast ?ext () (regularize ?raw) = Inr (zip ?idx (replicate 60 (Fin 1)))"
    unfolding assemble_forecast_unfold [OF p idx] by (simp add: make_series_Values)
  have "?idx \<noteq> []"
    by (metis fd(1) length_0_conv zero_neq_numeral)
  with fd(5) have "fst (hd (zip ?idx (replicate 60 (Fin 1)))) = ymd 1972 3 31"
    unfolding n by (cases ?idx) (simp_all add: numeral_eq_Suc)
  with a1 have A: "\<exists>fs. assemble_forecast ?ext () (regularize ?raw) = Inr fs \<and>
         fst (hd fs) = ymd 1972 3 31"
    by blast
  have B: "Some (ymd 1972 5 31) \<in> set (map fst (regularize ?raw))"
    by (simp add: r)
  have C: "\<not> ts_less (ymd 1972 5 31) (ymd 1972 3 31)"
    by (simp add: ts_less_def ymd_def)
  have q: "predict ?lab () n_periods = Inr (Labelled ?ps)"
    by simp
  have dl: "distinct (map fst ?ps)"
    by (simp add: distinct_map comp_def inj_on_def)
  have nd: "\<forall>l\<in>set (map fst ?ps). \<forall>x. l \<noteq> Stamp x"
    by auto
  have "assemble_forecast ?lab () (regularize ?raw) = Inr (map (\<lambda>x. (x, NaN)) ?idx)"
    unfolding assemble_forecast_unfold [OF q idx] make_series_Labelled [OF fd(6)]
    using dl reindex_no_dates [OF nd, of ?idx] by simp
  moreover have "length (map (\<lambda>x. (x, NaN)) ?idx) = 60"
    "map snd (map (\<lambda>x. (x, NaN)) ?idx) = replicate 60 NaN"
    using fd(1) by (simp_all add: comp_def map_replicate_const)
  ultimately have D: "\<exists>fs. assemble_forecast ?lab () (regularize ?raw) = Inr fs \<and>
         length fs = 60 \<and> map snd fs = replicate 60 NaN"
    by blast
  from A B C D show ?thesis by blast
qed

section \<open>The column normalizer\<close>

text \<open>
  Claim C4. For every table with at least one column whose name, trimmed and in lower
  case, is "month", the column normalizer returns a table with a column named exactly
  "Month"; the rows are untouched, and every column of the result that is not named
  "Month" has the name it had, at the place it had. Only a column whose name is
  month-like is ever renamed: a column whose name is not month-like keeps its name. A
  table that already has a "Month" column passes through unchanged; otherwise the column
  renamed is the first month-like one of the header, and when the column names are
  distinct exactly that position of the header is rewritten.
\<close>

theorem column_normalizer_renames_month:
  assumes "\<exists>c\<in>set (columns t). month_like c"
  shows "\<exists>t'. column_normalizer t = Inr t' \<and>
              rows t' = rows t \<and>
              ''Month'' \<in> set (columns t') \<and>
              length (columns t') = length (columns t) \<and>
              (\<forall>j<length (columns t). columns t' ! j \<noteq> ''Month'' \<longrightarrow> columns t' ! j = columns t ! j) \<and>
              (\<forall>j<length (columns t). columns t' ! j \<noteq> columns t ! j \<longrightarrow> month_like (columns t ! j)) \<and>
              (\<forall>j<length (columns t). \<not> month_like (columns t ! j) \<longrightarrow> columns t' ! j = columns t ! j) \<and>
              (''Month'' \<in> set (columns t) \<longrightarrow> t' = t) \<and>
              (''Month'' \<notin> set (columns t) \<longrightarrow>
                 (\<exists>i<length (columns t). month_like (columns t ! i) \<and>
                    (\<forall>j<i. \<not> month_like (columns t ! j)) \<and>
                    columns t' =
                      map (\<lambda>c. if c = columns t ! i then ''Month'' else c) (columns t))) \<and>
              (distinct (columns t) \<longrightarrow>
                 (\<exists>i<length (columns t). month_like (columns t ! i) \<and>
                    columns t' = (columns t)[i := ''Month'']))"
proof (cases "''Month'' \<in> set (columns t)")
  case True
  then obtain i where "i < length (columns t)" "columns t ! i = ''Month''"
    by (auto simp: in_set_conv_nth)
  then have "i < length (columns t) \<and> month_like (columns t ! i) \<and>
      columns t = (columns t)[i := ''Month'']"
    using month_like_Month by (metis list_update_id)
  then have "\<exists>i<length (columns t). month_like (columns t ! i) \<and>
      columns t = (columns t)[i := ''Month'']"
    by blast
  with True show ?thesis
    by (simp add: column_normalizer_def)
next
  case False
  from assms have "first_month_like (columns t) \<noteq> None"
    by (simp add: first_month_like_None)
  then obtain c where c: "first_month_like (columns t) = Some c" by auto
  from first_month_like_index [OF c] obtain i where i: "i < length (columns t)"
    "columns t ! i = c" "month_like c" "\<forall>j<i. \<not> month_like (columns t ! j)"
    by blast
  then have cin: "c \<in> set (columns t)" by auto
  let ?t' = "rename c ''Month'' t"
  from False c have n: "column_normalizer t = Inr ?t'"
    by (simp add: column_normalizer_def)
  have cols: "columns ?t' = map (\<lambda>x. if x = c then ''Month'' else x) (columns t)"
    by (simp add: rename_def)
  have A: "rows ?t' = rows t" by (simp add: rename_def)
  from cin have B: "''Month'' \<in> set (columns ?t')"
    unfolding cols by force
  have C: "length (columns ?t') = length (columns t)"
    unfolding cols by simp
  have D: "\<forall>j<length (columns t). columns ?t' ! j \<noteq> ''Month'' \<longrightarrow> columns ?t' ! j = columns t ! j"
    unfolding cols by simp
  have E: "\<forall>j<length (columns t). columns ?t' ! j \<noteq> columns t ! j \<longrightarrow> month_like (columns t ! j)"
    unfolding cols using i(3) by simp
  have F: "\<forall>j<length (columns t). \<not> month_like (columns t ! j) \<longrightarrow> columns ?t' ! j = columns t ! j"
    unfolding cols using i(3) by auto
  from i have G: "\<exists>i<length (columns t). month_like (columns t ! i) \<and>
                    (\<forall>j<i. \<not> month_like (columns t ! j)) \<and>
                    columns ?t' =
                      map (\<lambda>c. if c = columns t ! i then ''Month'' else c) (columns t)"
    unfolding cols by blast
  have H: "distinct (columns t) \<longrightarrow>
                 (\<exists>i<length (columns t). month_like (columns t ! i) \<and>
                    columns ?t' = (columns t)[i := ''Month''])"
  proof
    assume "distinct (columns t)"
    from rename_at [OF this i(1), of "''Month''"] i show
      "\<exists>i<length (columns t). month_like (columns t ! i) \<and>
                    columns ?t' = (columns t)[i := ''Month'']"
      unfolding cols by auto
  qed
  from n A B C D E F G H False show ?thesis by blast
qed

theorem column_normalizer_renames_month_witness:
  "month_like (CHR 0xA0 # '' MONTH '') \<and> \<not> month_like ''id'' \<and> \<not> month_like '' Revenue '' \<and>
   (\<exists>t'. column_normalizer
            \<lparr>columns = [''id'', CHR 0xA0 # '' MONTH '', '' Revenue ''], rows = []\<rparr> = Inr t' \<and>
         t' = \<lparr>columns = [''id'', ''Month'', '' Revenue ''], rows = []\<rparr> \<and>
         ''Month'' \<in> set (columns t') \<and> columns t' ! 0 = ''id'' \<and> columns t' ! 2 = '' Revenue '')"
proof -
  let ?t = "\<lparr>columns = [''id'', CHR 0xA0 # '' MONTH '', '' Revenue ''], rows = []\<rparr>"
  have m: "month_like (CHR 0xA0 # '' MONTH '')"
    by (simp add: month_like_def strip_def py_isspace_def lower_def lower_char_def
        upper_letters_def lower_letters_def)
  have nm: "\<not> month_like ''id''" "\<not> month_like '' Revenue ''"
    by (simp_all add: month_like_def strip_def py_isspace_def lower_def lower_char_def
        upper_letters_def lower_letters_def)
  from m have h: "\<exists>c\<in>set (columns ?t). month_like c" by simp
  from column_normalizer_renames_month [OF h] obtain t' where
    t': "column_normalizer ?t = Inr t'" "''Month'' \<in> set (columns t')"
      "\<forall>j<length (columns ?t). \<not> month_like (columns ?t ! j) \<longrightarrow> columns t' ! j = columns ?t ! j"
    by blast
  from t'(3) nm have k: "columns t' ! 0 = ''id''" "columns t' ! 2 = '' Revenue ''"
    by simp_all
  have e: "column_normalizer ?t = Inr \<lparr>columns = [''id'', ''Month'', '' Revenue ''], rows = []\<rparr>"
    by (simp add: column_normalizer_def rename_def m nm)
  with t'(1) have "t' = \<lparr>columns = [''id'', ''Month'', '' Revenue ''], rows = []\<rparr>" by simp
  with m nm t' k show ?thesis by simp
qed

text \<open>
  Claim C5. For every table with no column whose name, trimmed and in lower case, is
  "month", the column normalizer fails with \<open>MissingColumnError\<close> and returns no table,
  and the run of the script stops there: its result is that error, the model search is
  not called and the session is left as it was. Trimming is Python's: a name that is
  "month" behind a no-break space is month-like, and the table that has it is not in
  the scope of the claim.
\<close>

theorem column_normalizer_missing_month:
  assumes "\<forall>c\<in>set (columns t). \<not> month_like c"
  shows "column_normalizer t = Inl MissingColumnError \<and>
         load_series ext t = Inl MissingColumnError \<and>
         run_script ext t sess =
           \<lparr>session_after = sess, fit_calls = 0, result = Inl MissingColumnError\<rparr>"
proof -
  from assms month_like_Month have "''Month'' \<notin> set (columns t)" by blast
  moreover from assms have "first_month_like (columns t) = None"
    by (simp add: first_month_like_None)
  ultimately have "column_normalizer t = Inl MissingColumnError"
    by (simp add: column_normalizer_def)
  then show ?thesis
    by (simp add: load_series_def run_script_def)
qed

theorem column_normalizer_missing_month_witness:
  "\<not> month_like ''Date'' \<and> \<not> month_like '' Revenue '' \<and>
   month_like (CHR 0xA0 # ''month'') \<and> month_like (''MONTH'' @ [CHR 0x85]) \<and>
   run_script
     \<lparr>to_datetime = (\<lambda>cs. Inr (map (\<lambda>c. None) cs)), nearest_double = Fin, auto_arima = (\<lambda>s. Inr ()),
      predict = (\<lambda>m n. Inr (Values (replicate n (Fin 1))))\<rparr>
     \<lparr>columns = [''Date'', '' Revenue ''], rows = [[Text ''1972-01'', Text ''$1'']]\<rparr>
     \<lparr>model = None\<rparr> =
   \<lparr>session_after = \<lparr>model = None\<rparr>, fit_calls = 0, result = Inl MissingColumnError\<rparr>"
proof -
  let ?t = "\<lparr>columns = [''Date'', '' Revenue ''], rows = [[Text ''1972-01'', Text ''$1'']]\<rparr>"
  have n: "\<not> month_like ''Date''" "\<not> month_like '' Revenue ''"
    by (simp_all add: month_like_def strip_def py_isspace_def lower_def lower_char_def upper_letters_def lower_letters_def)
  then have h: "\<forall>c\<in>set (columns ?t). \<not> month_like c" by simp
  have y: "month_like (CHR 0xA0 # ''month'')" "month_like (''MONTH'' @ [CHR 0x85])"
    by (simp_all add: month_like_def strip_def py_isspace_def lower_def lower_char_def
        upper_letters_def lower_letters_def)
  from column_normalizer_missing_month [OF h] n y show ?thesis by blast
qed

section \<open>The model in the session\<close>

text \<open>
  Claim C9, as amended. The model is fitted on first need and stored: a run that finds no
  model in the session and whose call of \<open>auto_arima\<close> returns one stores it. From
  then on it is reused unchanged: every later run of the session leaves the session as it
  is, makes no call of \<open>auto_arima\<close>, and forecasts with the stored model. A call that
  raises stores nothing, so the next run calls again: over a whole session the calls of
  \<open>auto_arima\<close> are at least those that failed and at most one more, hence at most
  one in a session in which no call fails.
\<close>

theorem model_fitted_once:
  "(model sess = None \<and> load_series ext t = Inr data \<and> auto_arima ext data = Inr m \<longrightarrow>
      run_script ext t sess =
        \<lparr>session_after = sess\<lparr>model := Some m\<rparr>, fit_calls = 1,
         result = assemble_forecast ext m data\<rparr>) \<and>
   (model sess = None \<and> load_series ext t = Inr data \<and> auto_arima ext data = Inl e \<longrightarrow>
      run_script ext t sess = \<lparr>session_after = sess, fit_calls = 1, result = Inl e\<rparr>) \<and>
   (model sess = Some m \<longrightarrow>
      (\<forall>out\<in>set (run_session ext sess ts). session_after out = sess \<and> fit_calls out = 0) \<and>
      result (run_script ext t sess) =
        (case load_series ext t of Inl e \<Rightarrow> Inl e | Inr data \<Rightarrow> assemble_forecast ext m data)) \<and>
   total_fit_calls (run_session ext sess ts) \<le>
     1 + length (filter fit_failed (run_session ext sess ts)) \<and>
   length (filter fit_failed (run_session ext sess ts)) \<le>
     total_fit_calls (run_session ext sess ts) \<and>
   ((\<forall>out\<in>set (run_session ext sess ts). \<not> fit_failed out) \<longrightarrow>
      total_fit_calls (run_session ext sess ts) \<le> 1)"
proof (intro conjI impI)
  show "total_fit_calls (run_session ext sess ts) \<le>
     1 + length (filter fit_failed (run_session ext sess ts))"
    by (rule total_fit_calls_bound)
  show "length (filter fit_failed (run_session ext sess ts)) \<le>
     total_fit_calls (run_session ext sess ts)"
    by (rule failed_fits_counted)
next
  assume "\<forall>out\<in>set (run_session ext sess ts). \<not> fit_failed out"
  then have "filter fit_failed (run_session ext sess ts) = []"
    by (simp add: filter_empty_conv)
  with total_fit_calls_bound [of ext sess ts]
  show "total_fit_calls (run_session ext sess ts) \<le> 1" by simp
next
  assume "model sess = None \<and> load_series ext t = Inr data \<and> auto_arima ext data = Inr m"
  then show "run_script ext t sess =
        \<lparr>session_after = sess\<lparr>model := Some m\<rparr>, fit_calls = 1,
         result = assemble_forecast ext m data\<rparr>"
    by (simp add: run_script_first_need)
next
  assume "model sess = None \<and> load_series ext t = Inr data \<and> auto_arima ext data = Inl e"
  then show "run_script ext t sess = \<lparr>session_after = sess, fit_calls = 1, result = Inl e\<rparr>"
    by (simp add: run_script_failed_fit)
next
  assume s: "model sess = Some m"
  then show "\<forall>out\<in>set (run_session ext sess ts). session_after out = sess \<and> fit_calls out = 0"
    by (rule run_session_stored)
  from s show "result (run_script ext t sess) =
        (case load_series ext t of Inl e \<Rightarrow> Inl e | Inr data \<Rightarrow> assemble_forecast ext m data)"
    by (rule run_script_stored)
qed

theorem model_fitted_once_witness:
  "map fit_calls (run_session
      \<lparr>to_datetime = (\<lambda>cs. Inr (map (\<lambda>c. Some (ymd 1972 1 1)) cs)), nearest_double = Fin,
       auto_arima = (\<lambda>s. Inr ()), predict = (\<lambda>m n. Inr (Values (replicate n (Fin 1))))\<rparr>
      \<lparr>model = None\<rparr>
      (replicate 3 \<lparr>columns = [''Month'', '' Revenue ''], rows = [[Text ''1972-01'', Text ''$1'']]\<rparr>))
     = [1, 0, 0] \<and>
   map session_after (run_session
      \<lparr>to_datetime = (\<lambda>cs. Inr (map (\<lambda>c. Some (ymd 1972 1 1)) cs)), nearest_double = Fin,
       auto_arima = (\<lambda>s. Inr ()), predict = (\<lambda>m n. Inr (Values (replicate n (Fin 1))))\<rparr>
      \<lparr>model = None\<rparr>
      (replicate 3 \<lparr>columns = [''Month'', '' Revenue ''], rows = [[Text ''1972-01'', Text ''$1'']]\<rparr>))
     = [\<lparr>model = Some ()\<rparr>, \<lparr>model = Some ()\<rparr>, \<lparr>model = Some ()\<rparr>] \<and>
   total_fit_calls (run_session
      \<lparr>to_datetime = (\<lambda>cs. Inr (map (\<lambda>c. Some (ymd 1972 1 1)) cs)), nearest_double = Fin,
       auto_arima = (\<lambda>s. Inr ()), predict = (\<lambda>m n. Inr (Values (replicate n (Fin 1))))\<rparr>
      \<lparr>model = None\<rparr>
      (replicate 3 \<lparr>columns = [''Month'', '' Revenue ''], rows = [[Text ''1972-01'', Text ''$1'']]\<rparr>))
     \<le> 1"
proof -
  let ?ext = "\<lparr>to_datetime = (\<lambda>cs. Inr (map (\<lambda>c. Some (ymd 1972 1 1)) cs)),
       nearest_double = Fin, auto_arima = (\<lambda>s. Inr ()),
       predict = (\<lambda>m n. Inr (Values (replicate n (Fin 1))))\<rparr> :: unit externals"
  let ?t = "\<lparr>columns = [''Month'', '' Revenue ''], rows = [[Text ''1972-01'', Text ''$1'']]\<rparr>"
  let ?data = "[(Some (ymd 1971 12 31), Fin 1)]"
  let ?s1 = "\<lparr>model = Some ()\<rparr>"
  have ls: "load_series ?ext ?t = Inr ?data"
    by (simp add: load_series_eval regularize_eval)
  from model_fitted_once [of "\<lparr>model = None\<rparr>" ?ext ?t ?data "()"] ls
  have r1: "run_script ?ext ?t \<lparr>model = None\<rparr> =
      \<lparr>session_after = ?s1, fit_calls = 1, result = assemble_forecast ?ext () ?data\<rparr>"
    by simp
  have r2: "session_after (run_script ?ext ?t ?s1) = ?s1" "fit_calls (run_script ?ext ?t ?s1) = 0"
    by (simp_all add: run_script_def ls)
  have three: "replicate 3 ?t = [?t, ?t, ?t]" by (simp add: numeral_3_eq_3)
  have f: "map fit_calls (run_session ?ext \<lparr>model = None\<rparr> (replicate 3 ?t)) = [1, 0, 0]"
    and g: "map session_after (run_session ?ext \<lparr>model = None\<rparr> (replicate 3 ?t)) = [?s1, ?s1, ?s1]"
    unfolding three by (simp_all add: Let_def r1 r2)
  have "\<forall>out\<in>set (run_session ?ext \<lparr>model = None\<rparr> (replicate 3 ?t)). \<not> fit_failed out"
    unfolding three by (simp add: Let_def r1 r2 fit_failed_def)
  with model_fitted_once [of "\<lparr>model = None\<rparr>" ?ext ?t ?data "()" _ "replicate 3 ?t"]
  have "total_fit_calls (run_session ?ext \<lparr>model = None\<rparr> (replicate 3 ?t)) \<le> 1"
    by blast
  with f g show ?thesis by blast
qed


text \<open>
  The claim as stated fails when the model search raises: nothing is stored, so each of
  three runs of the script calls it again.
\<close>

theorem model_fitted_once_counterexample:
  "map fit_calls (run_session
      \<lparr>to_datetime = (\<lambda>cs. Inr (map (\<lambda>c. Some (ymd 1972 1 1)) cs)), nearest_double = Fin,
       auto_arima = (\<lambda>s. (Inl ModelFitError :: error + unit)),
       predict = (\<lambda>m n. Inr (Values (replicate n (Fin 1))))\<rparr>
      \<lparr>model = None\<rparr>
      (replicate 3 \<lparr>columns = [''Month'', '' Revenue ''], rows = [[Text ''1972-01'', Text ''$1'']]\<rparr>))
     = [1, 1, 1] \<and>
   \<not> total_fit_calls (run_session
      \<lparr>to_datetime = (\<lambda>cs. Inr (map (\<lambda>c. Some (ymd 1972 1 1)) cs)), nearest_double = Fin,
       auto_arima = (\<lambda>s. (Inl ModelFitError :: error + unit)),
       predict = (\<lambda>m n. Inr (Values (replicate n (Fin 1))))\<rparr>
      \<lparr>model = None\<rparr>
      (replicate 3 \<lparr>columns = [''Month'', '' Revenue ''], rows = [[Text ''1972-01'', Text ''$1'']]\<rparr>))
     \<le> 1"
proof -
  let ?ext = "\<lparr>to_datetime = (\<lambda>cs. Inr (map (\<lambda>c. Some (ymd 1972 1 1)) cs)),
       nearest_double = Fin, auto_arima = (\<lambda>s. (Inl ModelFitError :: error + unit)),
       predict = (\<lambda>m n. Inr (Values (replicate n (Fin 1))))\<rparr> :: unit externals"
  let ?t = "\<lparr>columns = [''Month'', '' Revenue ''], rows = [[Text ''1972-01'', Text ''$1'']]\<rparr>"
  let ?data = "[(Some (ymd 1971 12 31), Fin 1)]"
  let ?s0 = "\<lparr>model = None\<rparr> :: unit session"
  have ls: "load_series ?ext ?t = Inr ?data"
    by (simp add: load_series_eval regularize_eval)
  have r: "run_script ?ext ?t ?s0 =
      \<lparr>session_after = ?s0, fit_calls = 1, result = Inl ModelFitError\<rparr>"
    by (simp add: run_script_def ls)
  have three: "replicate 3 ?t = [?t, ?t, ?t]" by (simp add: numeral_3_eq_3)
  have f: "map fit_calls (run_session ?ext ?s0 (replicate 3 ?t)) = [1, 1, 1]"
    unfolding three by (simp add: Let_def r)
  then have "total_fit_calls (run_session ?ext ?s0 (replicate 3 ?t)) = 3"
    by (simp add: total_fit_calls_def)
  with f show ?thesis by simp
qed

section \<open>The revenue column\<close>

end
